theory Spec2Isabelle
  imports Main
begin

section \<open>Document analyzer: validation and scoring core\<close>

text \<open>
  A shallow embedding of \<^verbatim>\<open>src/src/document_analyzer.py\<close> (class \<^verbatim>\<open>DocumentAnalyzer\<close>).
  Python's \<^verbatim>\<open>int\<close> is \<^typ>\<open>int\<close>. A Python \<^verbatim>\<open>str\<close> is a \<^typ>\<open>string\<close>, where a
  \<^typ>\<open>char\<close> stands for the code point of the same number: the model covers the strings whose
  code points are below 256 (the Latin-1 block of Unicode), and the character functions below
  are Python's on that block. A function that can raise returns \<open>error + 'a\<close>, with \<open>Inl\<close> for
  the exception.
\<close>

datatype error = ValueError | CollaboratorFailure

subsection \<open>Characters and strings\<close>

text \<open>
  \<^verbatim>\<open>str.isdigit\<close> holds for the ten decimal digits and, below 256, for the superscripts
  U+00B2, U+00B3 and U+00B9. \<^verbatim>\<open>str.isdecimal\<close>, and the class \<^verbatim>\<open>\d\<close> of a regular
  expression, hold for the ten decimal digits only.
\<close>

definition isdigit :: "char \<Rightarrow> bool" where
  "isdigit c =
     (let n = (of_char c :: nat) in (48 \<le> n \<and> n \<le> 57) \<or> n = 178 \<or> n = 179 \<or> n = 185)"

definition isdecimal :: "char \<Rightarrow> bool" where
  "isdecimal c = (let n = (of_char c :: nat) in 48 \<le> n \<and> n \<le> 57)"

definition digit_value :: "char \<Rightarrow> int" where
  "digit_value c = int (of_char c) - 48"

text \<open>
  \<^verbatim>\<open>int(c)\<close> for a string of one character: the value of a decimal digit, and
  \<^verbatim>\<open>ValueError\<close> for any other character, the superscript digits included.
\<close>

definition int_of_char :: "char \<Rightarrow> error + int" where
  "int_of_char c = (if isdecimal c then Inr (digit_value c) else Inl ValueError)"

definition isspace :: "char \<Rightarrow> bool" where
  "isspace c =
     (let n = (of_char c :: nat) in
      (9 \<le> n \<and> n \<le> 13) \<or> (28 \<le> n \<and> n \<le> 32) \<or> n = 133 \<or> n = 160)"

definition strip :: "string \<Rightarrow> string" where
  "strip s = rev (dropWhile isspace (rev (dropWhile isspace s)))"

text \<open>\<^verbatim>\<open>str.lower\<close>: below 256 the cased capitals are A to Z and U+00C0 to U+00DE without U+00D7.\<close>

definition lower_char :: "char \<Rightarrow> char" where
  "lower_char c =
     (let n = (of_char c :: nat) in
      if (65 \<le> n \<and> n \<le> 90) \<or> (192 \<le> n \<and> n \<le> 222 \<and> n \<noteq> 215) then char_of (n + 32) else c)"

definition lower :: "string \<Rightarrow> string" where
  "lower s = map lower_char s"

text \<open>\<^verbatim>\<open>sub in s\<close> on strings: \<open>sub\<close> occurs in \<open>s\<close> as a contiguous block.\<close>

fun contains :: "string \<Rightarrow> string \<Rightarrow> bool" where
  "contains sub [] = (sub = [])"
| "contains sub (c # cs) = (take (length sub) (c # cs) = sub \<or> contains sub cs)"

subsection \<open>Identifier validators\<close>

text \<open>
  \<^verbatim>\<open>_validate_cpf\<close>. The sum of the generator converts the characters before position \<open>i\<close>
  with \<^verbatim>\<open>int\<close>, so it raises when one of them is not decimal.
\<close>

fun ints_of :: "string \<Rightarrow> error + int list" where
  "ints_of [] = Inr []"
| "ints_of (c # cs) =
     (case int_of_char c of
        Inl e \<Rightarrow> Inl e
      | Inr d \<Rightarrow> (case ints_of cs of Inl e \<Rightarrow> Inl e | Inr ds \<Rightarrow> Inr (d # ds)))"

definition cpf_total :: "string \<Rightarrow> nat \<Rightarrow> error + int" where
  "cpf_total cpf i =
     (case ints_of (take i cpf) of
        Inl e \<Rightarrow> Inl e
      | Inr ds \<Rightarrow> Inr (\<Sum>j\<leftarrow>[0..<i]. ds ! j * ((int i + 1) - int j)))"

text \<open>The loop \<^verbatim>\<open>for i in range(9, 11)\<close>, over the positions still to check.\<close>

fun cpf_loop :: "string \<Rightarrow> nat list \<Rightarrow> error + bool" where
  "cpf_loop cpf [] = Inr True"
| "cpf_loop cpf (i # rest) =
     (case cpf_total cpf i of
        Inl e \<Rightarrow> Inl e
      | Inr tot \<Rightarrow>
          (let digit = (tot * 10 mod 11) mod 10 in
           case int_of_char (cpf ! i) of
             Inl e \<Rightarrow> Inl e
           | Inr d \<Rightarrow> if d \<noteq> digit then Inr False else cpf_loop cpf rest))"

definition validate_cpf :: "string \<Rightarrow> error + bool" where
  "validate_cpf raw =
     (let cpf = filter isdigit raw in
      if length cpf \<noteq> 11 then Inr False
      else if cpf = replicate 11 (cpf ! 0) then Inr False
      else cpf_loop cpf [9..<11])"

definition validate_cnpj :: "string \<Rightarrow> bool" where
  "validate_cnpj raw =
     (let cnpj = filter isdigit raw in
      if length cnpj \<noteq> 14 then False else True)"

subsection \<open>Date validator\<close>

text \<open>A naive \<^verbatim>\<open>datetime\<close>, compared field by field from the year down.\<close>

record datetime =
  year :: int
  month :: int
  day :: int
  hour :: int
  minute :: int
  second :: int
  microsecond :: int

definition datetime_le :: "datetime \<Rightarrow> datetime \<Rightarrow> bool" where
  "datetime_le a b =
     (year a < year b \<or> year a = year b \<and>
      (month a < month b \<or> month a = month b \<and>
       (day a < day b \<or> day a = day b \<and>
        (hour a < hour b \<or> hour a = hour b \<and>
         (minute a < minute b \<or> minute a = minute b \<and>
          (second a < second b \<or> second a = second b \<and>
           microsecond a \<le> microsecond b))))))"

text \<open>
  \<^verbatim>\<open>datetime.strptime\<close> for the formats of the source. A format is the list of its
  directives and literal characters. The library turns it into a regular expression:
  \<^verbatim>\<open>%d\<close> is \<^verbatim>\<open>3[0-1]|[1-2]\d|0[1-9]|[1-9]| [1-9]\<close>, \<^verbatim>\<open>%m\<close> is \<^verbatim>\<open>1[0-2]|0[1-9]|[1-9]\<close>,
  \<^verbatim>\<open>%Y\<close> is \<^verbatim>\<open>\d\d\d\d\<close>. The function \<open>alternatives\<close> lists the ways one item matches
  at the start of the input, in the order the expression tries them, each with the text matched
  and the input left.
\<close>

datatype directive = Dir_d | Dir_m | Dir_Y | Lit char

definition in_range :: "char \<Rightarrow> char \<Rightarrow> char \<Rightarrow> bool" where
  "in_range lo hi c = ((of_char lo :: nat) \<le> of_char c \<and> (of_char c :: nat) \<le> of_char hi)"

definition one :: "(char \<Rightarrow> bool) \<Rightarrow> string \<Rightarrow> (string \<times> string) list" where
  "one p s = (case s of a # r \<Rightarrow> if p a then [([a], r)] else [] | _ \<Rightarrow> [])"

definition two :: "(char \<Rightarrow> bool) \<Rightarrow> (char \<Rightarrow> bool) \<Rightarrow> string \<Rightarrow> (string \<times> string) list" where
  "two p q s = (case s of a # b # r \<Rightarrow> if p a \<and> q b then [([a, b], r)] else [] | _ \<Rightarrow> [])"

fun alternatives :: "directive \<Rightarrow> string \<Rightarrow> (string \<times> string) list" where
  "alternatives Dir_d s =
     two ((=) CHR ''3'') (in_range CHR ''0'' CHR ''1'') s
     @ two (in_range CHR ''1'' CHR ''2'') isdecimal s
     @ two ((=) CHR ''0'') (in_range CHR ''1'' CHR ''9'') s
     @ one (in_range CHR ''1'' CHR ''9'') s
     @ two ((=) CHR '' '') (in_range CHR ''1'' CHR ''9'') s"
| "alternatives Dir_m s =
     two ((=) CHR ''1'') (in_range CHR ''0'' CHR ''2'') s
     @ two ((=) CHR ''0'') (in_range CHR ''1'' CHR ''9'') s
     @ one (in_range CHR ''1'' CHR ''9'') s"
| "alternatives Dir_Y s =
     (case s of
        a # b # c # d # r \<Rightarrow>
          if isdecimal a \<and> isdecimal b \<and> isdecimal c \<and> isdecimal d then [([a, b, c, d], r)] else []
      | _ \<Rightarrow> [])"
| "alternatives (Lit c) s = one ((=) c) s"

text \<open>
  All matches of a sequence of items, in backtracking order: the head of the list is the match
  that \<^verbatim>\<open>re.match\<close> returns. A match is the list of the groups found and the input left.
\<close>

fun re_match :: "directive list \<Rightarrow> string \<Rightarrow> ((directive \<times> string) list \<times> string) list" where
  "re_match [] s = [([], s)]"
| "re_match (it # its) s =
     concat (map (\<lambda>(txt, r). map (\<lambda>(found, e). ((it, txt) # found, e)) (re_match its r))
                 (alternatives it s))"

text \<open>\<^verbatim>\<open>int\<close> on the text of a group: decimal digits, after an optional space that \<^verbatim>\<open>int\<close> drops.\<close>

definition group_int :: "string \<Rightarrow> int" where
  "group_int txt = foldl (\<lambda>n c. 10 * n + digit_value c) 0 (strip txt)"

definition is_leap :: "int \<Rightarrow> bool" where
  "is_leap y = (y mod 4 = 0 \<and> (y mod 100 \<noteq> 0 \<or> y mod 400 = 0))"

definition days_in_month :: "int \<Rightarrow> int \<Rightarrow> int" where
  "days_in_month y m =
     (if m = 2 then (if is_leap y then 29 else 28)
      else if m = 4 \<or> m = 6 \<or> m = 9 \<or> m = 11 then 30 else 31)"

text \<open>The dates \<^verbatim>\<open>datetime.date\<close> accepts; for any other it raises \<^verbatim>\<open>ValueError\<close>.\<close>

definition date_ok :: "int \<Rightarrow> int \<Rightarrow> int \<Rightarrow> bool" where
  "date_ok y m d = (1 \<le> y \<and> y \<le> 9999 \<and> 1 \<le> m \<and> m \<le> 12 \<and> 1 \<le> d \<and> d \<le> days_in_month y m)"

text \<open>
  \<open>strptime\<close> is \<open>None\<close> where the library raises \<^verbatim>\<open>ValueError\<close>: the expression does not
  match, input is left after the match, or the fields are not a date. It is meant for formats
  with each of \<^verbatim>\<open>%d\<close>, \<^verbatim>\<open>%m\<close> and \<^verbatim>\<open>%Y\<close> once, as the four of the source.
\<close>

definition strptime :: "string \<Rightarrow> directive list \<Rightarrow> datetime option" where
  "strptime data_string fmt =
     (case re_match fmt data_string of
        [] \<Rightarrow> None
      | (found, e) # _ \<Rightarrow>
          if e \<noteq> [] then None
          else (case (map_of found Dir_Y, map_of found Dir_m, map_of found Dir_d) of
                  (Some ty, Some tm, Some td) \<Rightarrow>
                    (let y = group_int ty; m = group_int tm; d = group_int td in
                     if date_ok y m d
                     then Some \<lparr>year = y, month = m, day = d, hour = 0, minute = 0, second = 0,
                                microsecond = 0\<rparr>
                     else None)
                | _ \<Rightarrow> None))"

text \<open>The list \<^verbatim>\<open>["%d/%m/%Y", "%Y-%m-%d", "%d-%m-%Y", "%m/%d/%Y"]\<close>.\<close>

definition formats :: "directive list list" where
  "formats =
     [[Dir_d, Lit CHR ''/'', Dir_m, Lit CHR ''/'', Dir_Y],
      [Dir_Y, Lit CHR ''-'', Dir_m, Lit CHR ''-'', Dir_d],
      [Dir_d, Lit CHR ''-'', Dir_m, Lit CHR ''-'', Dir_Y],
      [Dir_m, Lit CHR ''/'', Dir_d, Lit CHR ''/'', Dir_Y]]"

text \<open>
  \<^verbatim>\<open>_validate_date\<close>, with the value of \<^verbatim>\<open>datetime.now()\<close> as the argument \<open>now\<close>: the clock
  is read once, after the first format that parses.
\<close>

fun validate_date_loop :: "datetime \<Rightarrow> string \<Rightarrow> directive list list \<Rightarrow> bool" where
  "validate_date_loop now date_str [] = False"
| "validate_date_loop now date_str (fmt # fmts) =
     (case strptime (strip date_str) fmt of
        Some date \<Rightarrow> datetime_le date now
      | None \<Rightarrow> validate_date_loop now date_str fmts)"

definition validate_date :: "datetime \<Rightarrow> string \<Rightarrow> bool" where
  "validate_date now date_str = validate_date_loop now date_str formats"

subsection \<open>Field classifier and validation aggregator\<close>

record validation =
  valid_fields :: "string list"
  invalid_fields :: "string list"
  warnings :: "string list"

text \<open>
  The extracted data is a dictionary in which each key may be absent: the payload of an
  unconfigured extraction has the key \<^verbatim>\<open>error\<close> alone. The dictionary \<^verbatim>\<open>key_value_pairs\<close>
  is the list of its items in iteration order.
\<close>

record table_cell =
  row :: int
  col :: int
  content :: string

record extracted_data =
  error_message :: "string option"
  key_value_pairs :: "(string \<times> string) list option"
  tables :: "table_cell list list option"
  entities :: "unit list option"

text \<open>
  The loop of \<^verbatim>\<open>_validate_fields\<close> over the items. Each call of \<^verbatim>\<open>_validate_date\<close> reads
  the clock itself: \<open>clock i\<close> is the time read while the item at position \<open>i\<close> is validated.
  An exception of \<^verbatim>\<open>_validate_cpf\<close> is not caught and ends the loop.
\<close>

fun validate_fields_loop ::
  "(nat \<Rightarrow> datetime) \<Rightarrow> nat \<Rightarrow> validation \<Rightarrow> (string \<times> string) list \<Rightarrow> error + validation" where
  "validate_fields_loop clock i results [] = Inr results"
| "validate_fields_loop clock i results ((key, val) # kvp) =
     (let key_lower = lower key in
      if contains ''cpf'' key_lower then
        (case validate_cpf val of
           Inl e \<Rightarrow> Inl e
         | Inr ok \<Rightarrow>
             if ok
             then validate_fields_loop clock (Suc i)
                    (results\<lparr>valid_fields := valid_fields results @ [''CPF: '' @ val]\<rparr>) kvp
             else validate_fields_loop clock (Suc i)
                    (results\<lparr>invalid_fields := invalid_fields results @ [''CPF invalido: '' @ val]\<rparr>) kvp)
      else if contains ''cnpj'' key_lower then
        (if validate_cnpj val
         then validate_fields_loop clock (Suc i)
                (results\<lparr>valid_fields := valid_fields results @ [''CNPJ: '' @ val]\<rparr>) kvp
         else validate_fields_loop clock (Suc i)
                (results\<lparr>invalid_fields := invalid_fields results @ [''CNPJ invalido: '' @ val]\<rparr>) kvp)
      else if contains ''data'' key_lower \<or> contains ''date'' key_lower then
        (if validate_date (clock i) val
         then validate_fields_loop clock (Suc i)
                (results\<lparr>valid_fields := valid_fields results @ [''Data: '' @ val]\<rparr>) kvp
         else validate_fields_loop clock (Suc i)
                (results\<lparr>warnings := warnings results @ [''Data suspeita: '' @ val]\<rparr>) kvp)
      else validate_fields_loop clock (Suc i) results kvp)"

definition validate_fields :: "(nat \<Rightarrow> datetime) \<Rightarrow> extracted_data \<Rightarrow> error + validation" where
  "validate_fields clock extracted =
     (let results = \<lparr>valid_fields = [], invalid_fields = [], warnings = []\<rparr>;
          kvp = (case key_value_pairs extracted of None \<Rightarrow> [] | Some d \<Rightarrow> d)
      in validate_fields_loop clock 0 results kvp)"

subsection \<open>Document extraction\<close>

text \<open>
  The result of the extraction service, as far as \<^verbatim>\<open>_extract_document_data\<close> reads it: of each
  pair the content of its key and of its value, when it has them, and of each table its cells.
  The configured client is a function of the document path; it fails when the file or the
  service does.
\<close>

record service_pair =
  pair_key :: "string option"
  pair_value :: "string option"

record service_cell =
  row_index :: int
  column_index :: int
  cell_content :: string

record service_result =
  result_pairs :: "service_pair list"
  result_tables :: "service_cell list list"

record fraud_analysis =
  analysis :: string
  flags :: "string list"

text \<open>
  The analyzer after \<^verbatim>\<open>__init__\<close>: each client is \<open>None\<close> when it is not configured. The
  text client takes the deployment and the prompt and returns the content of the first choice.
\<close>

record analyzer =
  doc_client :: "(string \<Rightarrow> error + service_result) option"
  openai_client :: "(string \<Rightarrow> string \<Rightarrow> error + string) option"
  openai_deployment :: string

text \<open>\<^verbatim>\<open>d[k] = v\<close>: a key already there keeps its place, a new key goes last.\<close>

fun dict_set :: "'k \<Rightarrow> 'v \<Rightarrow> ('k \<times> 'v) list \<Rightarrow> ('k \<times> 'v) list" where
  "dict_set k v [] = [(k, v)]"
| "dict_set k v ((k', v') # d) = (if k' = k then (k, v) # d else (k', v') # dict_set k v d)"

definition extract_document_data :: "analyzer \<Rightarrow> string \<Rightarrow> error + extracted_data" where
  "extract_document_data self document_path =
     (case doc_client self of
        None \<Rightarrow>
          Inr \<lparr>error_message = Some ''Document Intelligence client nao configurado'',
               key_value_pairs = None, tables = None, entities = None\<rparr>
      | Some client \<Rightarrow>
          (case client document_path of
             Inl e \<Rightarrow> Inl e
           | Inr result \<Rightarrow>
               Inr \<lparr>error_message = None,
                    key_value_pairs =
                      Some (foldl (\<lambda>d pair.
                              dict_set (case pair_key pair of None \<Rightarrow> ''unknown'' | Some k \<Rightarrow> k)
                                       (case pair_value pair of None \<Rightarrow> [] | Some v \<Rightarrow> v) d)
                            [] (result_pairs result)),
                    tables =
                      Some (map (map (\<lambda>cell. \<lparr>row = row_index cell, col = column_index cell,
                                              content = cell_content cell\<rparr>))
                                (result_tables result)),
                    entities = Some []\<rparr>))"

subsection \<open>Fraud narrative requester\<close>

text \<open>
  \<^verbatim>\<open>json.dumps(..., ensure_ascii=False)\<close> on strings, lists of strings and dictionaries of
  strings: the quote, the backslash and the control characters are escaped, and nothing else.
\<close>

definition hex_digit :: "nat \<Rightarrow> char" where
  "hex_digit n = (if n < 10 then char_of (48 + n) else char_of (87 + n))"

definition json_escape :: "char \<Rightarrow> string" where
  "json_escape c =
     (let n = (of_char c :: nat) in
      if n = 34 then [CHR 0x5C, CHR 0x22]
      else if n = 92 then [CHR 0x5C, CHR 0x5C]
      else if n = 10 then [CHR 0x5C, CHR ''n'']
      else if n = 13 then [CHR 0x5C, CHR ''r'']
      else if n = 9 then [CHR 0x5C, CHR ''t'']
      else if n = 8 then [CHR 0x5C, CHR ''b'']
      else if n = 12 then [CHR 0x5C, CHR ''f'']
      else if n < 32 then [CHR 0x5C, CHR ''u'', CHR ''0'', CHR ''0'', hex_digit (n div 16), hex_digit (n mod 16)]
      else [c])"

definition json_string :: "string \<Rightarrow> string" where
  "json_string s = [CHR 0x22] @ concat (map json_escape s) @ [CHR 0x22]"

fun join :: "string \<Rightarrow> string list \<Rightarrow> string" where
  "join sep [] = []"
| "join sep [x] = x"
| "join sep (x # y # xs) = x @ sep @ join sep (y # xs)"

definition json_list :: "string list \<Rightarrow> string" where
  "json_list xs = ''['' @ join '', '' (map json_string xs) @ '']''"

definition json_dict :: "(string \<times> string) list \<Rightarrow> string" where
  "json_dict d = ''{'' @ join '', '' (map (\<lambda>(k, v). json_string k @ '': '' @ v) d) @ ''}''"

definition json_validation :: "validation \<Rightarrow> string" where
  "json_validation v =
     json_dict [(''valid_fields'', json_list (valid_fields v)),
                (''invalid_fields'', json_list (invalid_fields v)),
                (''warnings'', json_list (warnings v))]"

definition build_prompt :: "extracted_data \<Rightarrow> validation \<Rightarrow> string" where
  "build_prompt extracted v =
     ''Analise os seguintes dados extraidos de um documento e identifique possiveis indicadores de fraude:''
     @ [CHR 0x0A, CHR 0x0A]
     @ ''Dados extraidos: ''
     @ json_dict (map (\<lambda>(k, x). (k, json_string x))
                      (case key_value_pairs extracted of None \<Rightarrow> [] | Some d \<Rightarrow> d))
     @ [CHR 0x0A]
     @ ''Validacao: '' @ json_validation v
     @ [CHR 0x0A, CHR 0x0A]
     @ ''Forneca uma analise estruturada com:'' @ [CHR 0x0A]
     @ ''1. Indicadores de fraude encontrados'' @ [CHR 0x0A]
     @ ''2. Nivel de suspeita (baixo, medio, alto)'' @ [CHR 0x0A]
     @ ''3. Recomendacoes''"

definition analyze_fraud_patterns ::
  "analyzer \<Rightarrow> extracted_data \<Rightarrow> validation \<Rightarrow> error + fraud_analysis" where
  "analyze_fraud_patterns self extracted v =
     (case openai_client self of
        None \<Rightarrow> Inr \<lparr>analysis = ''OpenAI client nao configurado'', flags = []\<rparr>
      | Some client \<Rightarrow>
          (case client (openai_deployment self) (build_prompt extracted v) of
             Inl e \<Rightarrow> Inl e
           | Inr response \<Rightarrow> Inr \<lparr>analysis = response, flags = invalid_fields v\<rparr>))"

subsection \<open>Risk scorer\<close>

text \<open>
  \<^verbatim>\<open>_calculate_risk_score\<close>: the three counts are added to a score that starts at 0, then the
  score is clamped with \<^verbatim>\<open>min(score, 100)\<close>.
\<close>

definition calculate_risk_score :: "validation \<Rightarrow> fraud_analysis \<Rightarrow> int" where
  "calculate_risk_score v fa =
     (let score = 0;
          invalid_count = int (length (invalid_fields v));
          warning_count = int (length (warnings v));
          flag_count = int (length (flags fa));
          score = score + invalid_count * 25;
          score = score + warning_count * 10;
          score = score + flag_count * 15
      in min score 100)"

text \<open>\<^verbatim>\<open>_get_risk_level\<close>: the chain of comparisons, in the source's order.\<close>

definition get_risk_level :: "int \<Rightarrow> string" where
  "get_risk_level score =
     (if score \<le> 20 then ''BAIXO''
      else if score \<le> 50 then ''MEDIO''
      else if score \<le> 75 then ''ALTO''
      else ''CRITICO'')"

subsection \<open>The analysis of a document\<close>

text \<open>
  \<^verbatim>\<open>analyze_document\<close>. The report keeps the time read for its timestamp as a
  \<open>datetime\<close>; an exception of a step ends the analysis.
\<close>

record report =
  timestamp :: datetime
  document :: string
  report_extracted_data :: extracted_data
  report_validation :: validation
  report_fraud_analysis :: fraud_analysis
  risk_score :: int
  risk_level :: string

definition analyze_document ::
  "analyzer \<Rightarrow> (nat \<Rightarrow> datetime) \<Rightarrow> datetime \<Rightarrow> string \<Rightarrow> error + report" where
  "analyze_document self clock stamp document_path =
     (case extract_document_data self document_path of
        Inl e \<Rightarrow> Inl e
      | Inr extracted \<Rightarrow>
          (case validate_fields clock extracted of
             Inl e \<Rightarrow> Inl e
           | Inr validation_results \<Rightarrow>
               (case analyze_fraud_patterns self extracted validation_results of
                  Inl e \<Rightarrow> Inl e
                | Inr fa \<Rightarrow>
                    (let score = calculate_risk_score validation_results fa in
                     Inr \<lparr>timestamp = stamp, document = document_path,
                          report_extracted_data = extracted,
                          report_validation = validation_results,
                          report_fraud_analysis = fa,
                          risk_score = score,
                          risk_level = get_risk_level score\<rparr>))))"

subsection \<open>Notions of the specification\<close>

text \<open>
  The CPF rule in the words of the specification, on the string of digits: eleven digits, not
  eleven copies of one digit, and each of the two check digits equal to the weighted sum of the
  digits before it, times ten, modulo eleven, modulo ten.
\<close>

definition cpf_rule :: "string \<Rightarrow> bool" where
  "cpf_rule ds =
     (length ds = 11 \<and> ds \<noteq> replicate 11 (ds ! 0)
      \<and> (\<forall>i\<in>{9, 10}. digit_value (ds ! i) =
            ((\<Sum>j<i. digit_value (ds ! j) * ((int i + 1) - int j)) * 10 mod 11) mod 10))"

text \<open>A moment is strictly after another.\<close>

definition datetime_lt :: "datetime \<Rightarrow> datetime \<Rightarrow> bool" where
  "datetime_lt a b =
     (year a < year b \<or> year a = year b \<and>
      (month a < month b \<or> month a = month b \<and>
       (day a < day b \<or> day a = day b \<and>
        (hour a < hour b \<or> hour a = hour b \<and>
         (minute a < minute b \<or> minute a = minute b \<and>
          (second a < second b \<or> second a = second b \<and>
           microsecond a < microsecond b))))))"

text \<open>The first moment of a day.\<close>

definition midnight :: "int \<Rightarrow> int \<Rightarrow> int \<Rightarrow> datetime" where
  "midnight y m d =
     \<lparr>year = y, month = m, day = d, hour = 0, minute = 0, second = 0, microsecond = 0\<rparr>"

text \<open>
  A date written in the four layouts, in the order of \<open>formats\<close>, with two digits for the day
  and the month and four for the year.
\<close>

definition digit_char :: "int \<Rightarrow> char" where
  "digit_char n = char_of (48 + nat n)"

definition pad2 :: "int \<Rightarrow> string" where
  "pad2 n = [digit_char (n div 10 mod 10), digit_char (n mod 10)]"

definition pad4 :: "int \<Rightarrow> string" where
  "pad4 n = [digit_char (n div 1000 mod 10), digit_char (n div 100 mod 10),
             digit_char (n div 10 mod 10), digit_char (n mod 10)]"

definition date_strings :: "int \<Rightarrow> int \<Rightarrow> int \<Rightarrow> string list" where
  "date_strings y m d =
     [pad2 d @ ''/'' @ pad2 m @ ''/'' @ pad4 y,
      pad4 y @ ''-'' @ pad2 m @ ''-'' @ pad2 d,
      pad2 d @ ''-'' @ pad2 m @ ''-'' @ pad4 y,
      pad2 m @ ''/'' @ pad2 d @ ''/'' @ pad4 y]"

text \<open>
  The classification of one pair in the words of the specification: the bucket and the label
  it gets at the moment \<open>now\<close>, or \<open>None\<close> when its key is of no validated kind. A CPF passes
  when the validator returns true.
\<close>

datatype bucket = Valid | Invalid | Warning

definition field_label :: "datetime \<Rightarrow> string \<times> string \<Rightarrow> (bucket \<times> string) option" where
  "field_label now kv =
     (let key = fst kv; val = snd kv in
      if contains ''cpf'' (lower key) then
        Some (if validate_cpf val = Inr True then (Valid, ''CPF: '' @ val)
              else (Invalid, ''CPF invalido: '' @ val))
      else if contains ''cnpj'' (lower key) then
        Some (if validate_cnpj val then (Valid, ''CNPJ: '' @ val)
              else (Invalid, ''CNPJ invalido: '' @ val))
      else if contains ''data'' (lower key) \<or> contains ''date'' (lower key) then
        Some (if validate_date now val then (Valid, ''Data: '' @ val)
              else (Warning, ''Data suspeita: '' @ val))
      else None)"

text \<open>The labels of the pairs from position \<open>i\<close> on, and the labels of one bucket, in order.\<close>

definition labels :: "(nat \<Rightarrow> datetime) \<Rightarrow> nat \<Rightarrow> (string \<times> string) list \<Rightarrow> (bucket \<times> string) option list" where
  "labels clock i kvp = map (\<lambda>(j, kv). field_label (clock j) kv) (enumerate i kvp)"

fun bucket_labels :: "bucket \<Rightarrow> (bucket \<times> string) option list \<Rightarrow> string list" where
  "bucket_labels b [] = []"
| "bucket_labels b (None # ls) = bucket_labels b ls"
| "bucket_labels b (Some (b', l) # ls) = (if b' = b then l # bucket_labels b ls else bucket_labels b ls)"

definition pairs_of :: "extracted_data \<Rightarrow> (string \<times> string) list" where
  "pairs_of extracted = (case key_value_pairs extracted of None \<Rightarrow> [] | Some d \<Rightarrow> d)"

section \<open>Results\<close>

subsection \<open>Risk scorer\<close>

text \<open>
  Claim C1. For every validation result and fraud analysis, the risk score is exactly
  \<open>min(100, 25 * len(invalid_fields) + 10 * len(warnings) + 15 * len(flags))\<close>; it is an integer
  between 0 and 100; and with five invalid fields, no warnings and no flags it is exactly 100,
  whose risk level is CRITICO.
\<close>

theorem calculate_risk_score_formula:
  "calculate_risk_score v fa =
     min 100 (25 * int (length (invalid_fields v)) + 10 * int (length (warnings v))
              + 15 * int (length (flags fa)))
   \<and> 0 \<le> calculate_risk_score v fa \<and> calculate_risk_score v fa \<le> 100
   \<and> (length (invalid_fields v) = 5 \<and> warnings v = [] \<and> flags fa = [] \<longrightarrow>
        calculate_risk_score v fa = 100 \<and> get_risk_level (calculate_risk_score v fa) = ''CRITICO'')"
  by (simp add: calculate_risk_score_def get_risk_level_def Let_def min_def)

theorem calculate_risk_score_formula_witness:
  "length [''a'', ''b'', ''c'', ''d'', ''e''] = 5
   \<and> calculate_risk_score
       \<lparr>valid_fields = [], invalid_fields = [''a'', ''b'', ''c'', ''d'', ''e''], warnings = []\<rparr>
       \<lparr>analysis = ''x'', flags = []\<rparr> = 100
   \<and> get_risk_level 100 = ''CRITICO''"
  using calculate_risk_score_formula
    [of "\<lparr>valid_fields = [], invalid_fields = [''a'', ''b'', ''c'', ''d'', ''e''], warnings = []\<rparr>"
        "\<lparr>analysis = ''x'', flags = []\<rparr>"]
  by auto

text \<open>
  Claim C2. For every integer score the risk level is BAIXO when the score is at most 20, MEDIO
  from 21 to 50, ALTO from 51 to 75 and CRITICO above 75; the score of two invalid fields, one
  warning and one flag is 75, and its level is ALTO.
\<close>

theorem get_risk_level_bands:
  "(score \<le> 20 \<longrightarrow> get_risk_level score = ''BAIXO'')
   \<and> (21 \<le> score \<and> score \<le> 50 \<longrightarrow> get_risk_level score = ''MEDIO'')
   \<and> (51 \<le> score \<and> score \<le> 75 \<longrightarrow> get_risk_level score = ''ALTO'')
   \<and> (75 < score \<longrightarrow> get_risk_level score = ''CRITICO'')
   \<and> (length (invalid_fields v) = 2 \<and> length (warnings v) = 1 \<and> length (flags fa) = 1 \<longrightarrow>
        calculate_risk_score v fa = 75 \<and> get_risk_level (calculate_risk_score v fa) = ''ALTO'')"
  by (simp add: calculate_risk_score_def get_risk_level_def Let_def)

theorem get_risk_level_bands_witness:
  "get_risk_level 20 = ''BAIXO'' \<and> get_risk_level 21 = ''MEDIO'' \<and> get_risk_level 50 = ''MEDIO''
   \<and> get_risk_level 51 = ''ALTO'' \<and> get_risk_level 75 = ''ALTO'' \<and> get_risk_level 76 = ''CRITICO''
   \<and> calculate_risk_score
       \<lparr>valid_fields = [], invalid_fields = [''a'', ''b''], warnings = [''w'']\<rparr>
       \<lparr>analysis = ''x'', flags = [''f'']\<rparr> = 75"
  using get_risk_level_bands
          [of 20 "\<lparr>valid_fields = [], invalid_fields = [''a'', ''b''], warnings = [''w'']\<rparr>"
              "\<lparr>analysis = ''x'', flags = [''f'']\<rparr>"]
        get_risk_level_bands [of 21] get_risk_level_bands [of 50] get_risk_level_bands [of 51]
        get_risk_level_bands [of 75] get_risk_level_bands [of 76]
  by simp

subsection \<open>Identifier validators\<close>

lemma ints_of_decimal: "list_all isdecimal xs \<Longrightarrow> ints_of xs = Inr (map digit_value xs)"
  by (induction xs) (simp_all add: int_of_char_def)

lemma cpf_total_decimal:
  assumes "list_all isdecimal cpf" and "i \<le> length cpf"
  shows "cpf_total cpf i = Inr (\<Sum>j<i. digit_value (cpf ! j) * ((int i + 1) - int j))"
proof -
  have "list_all isdecimal (take i cpf)"
    using assms(1) by (auto simp: list_all_iff dest: in_set_takeD)
  then have a: "ints_of (take i cpf) = Inr (map digit_value (take i cpf))"
    by (rule ints_of_decimal)
  have "(\<Sum>j\<leftarrow>[0..<i]. map digit_value (take i cpf) ! j * ((int i + 1) - int j))
        = (\<Sum>j\<leftarrow>[0..<i]. digit_value (cpf ! j) * ((int i + 1) - int j))"
    using assms(2) by (intro arg_cong [where f = sum_list] map_cong) simp_all
  also have "\<dots> = (\<Sum>j<i. digit_value (cpf ! j) * ((int i + 1) - int j))"
    by (simp add: interv_sum_list_conv_sum_set_nat atLeast0LessThan)
  finally show ?thesis
    by (simp add: cpf_total_def a)
qed

lemma upt_9_11: "[9..<11] = [9, 10::nat]"
  by (simp add: upt_rec)

text \<open>
  On the inputs whose digit characters are all decimal, \<open>validate_cpf\<close> returns, and it returns
  true exactly when the digits satisfy the rule of the specification.
\<close>

lemma validate_cpf_decimal:
  assumes "\<forall>c\<in>set raw. isdigit c \<longrightarrow> isdecimal c"
  shows "validate_cpf raw = Inr (cpf_rule (filter isdigit raw))"
proof -
  let ?cpf = "filter isdigit raw"
  have dec: "list_all isdecimal ?cpf"
    using assms by (simp add: list_all_iff)
  show ?thesis
  proof (cases "length ?cpf = 11")
    case False
    then show ?thesis by (simp add: validate_cpf_def cpf_rule_def)
  next
    case True
    have d9: "int_of_char (?cpf ! 9) = Inr (digit_value (?cpf ! 9))"
      and d10: "int_of_char (?cpf ! 10) = Inr (digit_value (?cpf ! 10))"
      using dec True by (simp_all add: int_of_char_def list_all_length)
    have t9: "cpf_total ?cpf 9 = Inr (\<Sum>j<9. digit_value (?cpf ! j) * ((int 9 + 1) - int j))"
      and t10: "cpf_total ?cpf 10 = Inr (\<Sum>j<10. digit_value (?cpf ! j) * ((int 10 + 1) - int j))"
      using cpf_total_decimal [OF dec] True by simp_all
    show ?thesis
      using True by (simp add: validate_cpf_def cpf_rule_def upt_9_11 t9 t10 d9 d10 Let_def)
  qed
qed

text \<open>Eleven copies of one digit character are rejected before any conversion.\<close>

lemma validate_cpf_repeated: "isdigit c \<Longrightarrow> validate_cpf (replicate 11 c) = Inr False"
  by (simp add: validate_cpf_def)

lemma superscript_two_isdigit: "isdigit (CHR 0xB2) \<and> \<not> isdecimal (CHR 0xB2)"
  by (simp add: isdigit_def isdecimal_def)

text \<open>
  Claim C3. For every input string, \<open>validate_cpf\<close> strips the non-digit characters and returns
  true exactly when eleven digits remain, they are not eleven copies of one digit, and both
  check digits match. The code does not return on every input: \<^verbatim>\<open>str.isdigit\<close> keeps the
  superscript two (U+00B2), which \<^verbatim>\<open>int\<close> rejects, so on ten superscript twos followed by
  \<open>1\<close> the conversion raises \<^verbatim>\<open>ValueError\<close>.
\<close>

theorem validate_cpf_superscript_raises:
  "validate_cpf (replicate 10 (CHR 0xB2) @ ''1'') = Inl ValueError"
  by code_simp

text \<open>
  The outcome of \<open>validate_cpf\<close> depends only on the characters that \<^verbatim>\<open>str.isdigit\<close> keeps.
  On the inputs whose digit characters are all decimal these are the decimal digits, and
  \<open>validate_cpf\<close> returns the rule of the specification on them.
\<close>

lemma validate_cpf_filter: "validate_cpf s = validate_cpf (filter isdigit s)"
  by (simp add: validate_cpf_def)

lemma validate_cpf_formatted_example:
  "validate_cpf ''111.444.777-35'' = Inr True \<and> validate_cpf ''11144477735'' = Inr True"
  by code_simp

lemma isdecimal_isdigit: "isdecimal c \<Longrightarrow> isdigit c"
  by (simp add: isdecimal_def isdigit_def Let_def)

lemma filter_isdigit_decimal:
  "\<forall>c\<in>set s. isdigit c \<longrightarrow> isdecimal c \<Longrightarrow> filter isdigit s = filter isdecimal s"
  by (rule filter_cong) (auto dest: isdecimal_isdigit)

lemma validate_cpf_decimal_projection:
  assumes "\<forall>c\<in>set s. isdigit c \<longrightarrow> isdecimal c"
  shows "validate_cpf s = validate_cpf (filter isdecimal s)
         \<and> validate_cpf s = Inr (cpf_rule (filter isdecimal s))"
proof -
  have f: "filter isdigit s = filter isdecimal s"
    using assms by (rule filter_isdigit_decimal)
  have "validate_cpf s = validate_cpf (filter isdigit s)"
    by (simp add: validate_cpf_def)
  moreover have "validate_cpf s = Inr (cpf_rule (filter isdigit s))"
    using assms by (rule validate_cpf_decimal)
  ultimately show ?thesis
    by (simp add: f)
qed

text \<open>
  Claim C4. \<open>validate_cpf\<close> does not depend on the non-digit characters of its input: the
  outcome on a string is the outcome on its digits. The code does not do so on every input:
  \<^verbatim>\<open>str.isdigit\<close> keeps the superscript two (U+00B2), which is not a decimal digit. The valid
  \<open>111.444.777-35\<close> followed by a superscript two is rejected, while its decimal digits are
  accepted; and \<open>111.444.777-3\<close> followed by a superscript two raises \<^verbatim>\<open>ValueError\<close>, while
  its decimal digits are rejected.
\<close>

theorem validate_cpf_superscript_formatting:
  "validate_cpf (''111.444.777-35'' @ [CHR 0xB2]) = Inr False
   \<and> validate_cpf (filter isdecimal (''111.444.777-35'' @ [CHR 0xB2])) = Inr True
   \<and> validate_cpf (''111.444.777-3'' @ [CHR 0xB2]) = Inl ValueError
   \<and> validate_cpf (filter isdecimal (''111.444.777-3'' @ [CHR 0xB2])) = Inr False"
  by code_simp

text \<open>
  \<open>validate_cnpj\<close> counts the characters that \<^verbatim>\<open>str.isdigit\<close> keeps. On the inputs whose
  digit characters are all decimal it is true exactly for 14 decimal digits, whatever stands
  between them.
\<close>

lemma validate_cnpj_isdigit_count: "validate_cnpj s = (length (filter isdigit s) = 14)"
  by (simp add: validate_cnpj_def)

lemma validate_cnpj_decimal:
  assumes "\<forall>c\<in>set s. isdigit c \<longrightarrow> isdecimal c"
  shows "validate_cnpj s = (length (filter isdecimal s) = 14)"
  using filter_isdigit_decimal [OF assms] by (simp add: validate_cnpj_def)

lemma validate_cnpj_formatted: "validate_cnpj ''11.222.333/0001-81'' \<and> \<not> validate_cnpj ''11.222.333/0001-8''"
  by code_simp

text \<open>
  Claim C5. For every input string, \<open>validate_cnpj\<close> is true exactly when 14 digits remain
  after the non-digit characters are stripped. The code does not do so on every input: it
  counts the superscript two (U+00B2) as a digit, so thirteen zeros followed by a superscript
  two pass with 13 decimal digits, and fourteen superscript twos pass with none.
\<close>

theorem validate_cnpj_superscript_counts:
  "validate_cnpj (replicate 13 CHR ''0'' @ [CHR 0xB2])
   \<and> length (filter isdecimal (replicate 13 CHR ''0'' @ [CHR 0xB2])) = 13
   \<and> validate_cnpj (replicate 14 (CHR 0xB2))
   \<and> length (filter isdecimal (replicate 14 (CHR 0xB2))) = 0"
  by code_simp

subsection \<open>Date validator\<close>

lemma datetime_le_not_lt: "datetime_le a b = (\<not> datetime_lt b a)"
  unfolding datetime_le_def datetime_lt_def by auto

lemma validate_date_loop_first:
  "validate_date_loop now s fs =
     (case List.map_filter (strptime (strip s)) fs of
        [] \<Rightarrow> False
      | date # _ \<Rightarrow> \<not> datetime_lt now date)"
  by (induction fs) (simp_all add: List.map_filter_simps datetime_le_not_lt split: option.splits)

text \<open>What a match of the expression says about the input and the groups.\<close>

lemma alternatives_sound:
  "(txt, r) \<in> set (alternatives it s) \<Longrightarrow>
     s = txt @ r \<and> (it = Dir_Y \<longrightarrow> length txt = 4 \<and> list_all isdecimal txt)
     \<and> (\<forall>c. it = Lit c \<longrightarrow> txt = [c])"
  by (cases it) (auto simp: one_def two_def split: list.splits if_splits)

lemma re_match_sound:
  "(found, e) \<in> set (re_match its s) \<Longrightarrow>
     map fst found = its \<and> s = concat (map snd found) @ e
     \<and> (\<forall>txt. (Dir_Y, txt) \<in> set found \<longrightarrow> length txt = 4 \<and> list_all isdecimal txt)
     \<and> (\<forall>c txt. (Lit c, txt) \<in> set found \<longrightarrow> txt = [c])"
proof (induction its arbitrary: s found e)
  case Nil
  then show ?case by simp
next
  case (Cons it its)
  from Cons.prems obtain tx r fnd
    where a: "(tx, r) \<in> set (alternatives it s)"
      and m: "(fnd, e) \<in> set (re_match its r)"
      and f: "found = (it, tx) # fnd"
    by auto
  from Cons.IH [OF m] alternatives_sound [OF a] f show ?case
    by auto
qed

lemma strptime_Some:
  assumes "strptime s f = Some dt"
  shows "\<exists>found ty. (found, []) \<in> set (re_match f s) \<and> map_of found Dir_Y = Some ty
           \<and> year dt = group_int ty"
proof -
  from assms obtain found e rest where r: "re_match f s = (found, e) # rest"
    by (auto simp: strptime_def split: list.splits)
  with assms have e: "e = []"
    by (auto simp: strptime_def split: if_splits)
  from assms r e obtain ty where "map_of found Dir_Y = Some ty" "year dt = group_int ty"
    by (auto simp: strptime_def Let_def split: option.splits if_splits)
  moreover have "(found, []) \<in> set (re_match f s)"
    using r e by simp
  ultimately show ?thesis by blast
qed

lemma found5:
  assumes "map fst found = [a, b, c, d, e]"
  shows "\<exists>t1 t2 t3 t4 t5. found = [(a, t1), (b, t2), (c, t3), (d, t4), (e, t5)]"
  using assms by (auto simp: map_eq_Cons_conv)

lemma strptime_year_last:
  assumes "strptime s [a, Lit c1, b, Lit c2, Dir_Y] = Some dt" and "a \<noteq> Dir_Y" and "b \<noteq> Dir_Y"
  shows "\<exists>p ty. s = p @ ty \<and> length ty = 4 \<and> list_all isdecimal ty \<and> year dt = group_int ty
           \<and> c1 \<in> set s \<and> c2 \<in> set s"
proof -
  from strptime_Some [OF assms(1)] obtain found ty where
    m: "(found, []) \<in> set (re_match [a, Lit c1, b, Lit c2, Dir_Y] s)" and
    y: "map_of found Dir_Y = Some ty" "year dt = group_int ty"
    by blast
  note snd = re_match_sound [OF m]
  from snd have "map fst found = [a, Lit c1, b, Lit c2, Dir_Y]" by simp
  from found5 [OF this] obtain t1 t2 t3 t4 t5 where
    f: "found = [(a, t1), (Lit c1, t2), (b, t3), (Lit c2, t4), (Dir_Y, t5)]"
    by blast
  from y f assms(2,3) have t5: "t5 = ty" by simp
  from snd f have t2: "t2 = [c1]" and t4: "t4 = [c2]"
    by auto
  from snd f t5 have ty: "length ty = 4" "list_all isdecimal ty"
    by auto
  from snd f t2 t4 t5 have s: "s = (t1 @ [c1] @ t3 @ [c2]) @ ty"
    by simp
  then have "c1 \<in> set s" "c2 \<in> set s" by auto
  with s ty y show ?thesis by blast
qed

lemma strptime_year_first:
  assumes "strptime s [Dir_Y, Lit c1, b, Lit c2, a] = Some dt"
  shows "\<exists>ty q. s = ty @ q \<and> length ty = 4 \<and> list_all isdecimal ty \<and> year dt = group_int ty
           \<and> c1 \<in> set s \<and> c2 \<in> set s"
proof -
  from strptime_Some [OF assms(1)] obtain found ty where
    m: "(found, []) \<in> set (re_match [Dir_Y, Lit c1, b, Lit c2, a] s)" and
    y: "map_of found Dir_Y = Some ty" "year dt = group_int ty"
    by blast
  note snd = re_match_sound [OF m]
  from snd have "map fst found = [Dir_Y, Lit c1, b, Lit c2, a]" by simp
  from found5 [OF this] obtain t1 t2 t3 t4 t5 where
    f: "found = [(Dir_Y, t1), (Lit c1, t2), (b, t3), (Lit c2, t4), (a, t5)]"
    by blast
  from y f have t1: "t1 = ty" by simp
  from snd f have t2: "t2 = [c1]" and t4: "t4 = [c2]"
    by auto
  from snd f t1 have ty: "length ty = 4" "list_all isdecimal ty"
    by auto
  from snd f t2 t4 t1 have s: "s = ty @ ([c1] @ t3 @ [c2] @ t5)"
    by simp
  then have "c1 \<in> set s" "c2 \<in> set s" by auto
  with s ty y show ?thesis by blast
qed


text \<open>The strings of a date in the four layouts.\<close>

lemma isdecimal_digit_char: "0 \<le> k \<Longrightarrow> k < 10 \<Longrightarrow> isdecimal (digit_char k)"
  by (simp add: isdecimal_def digit_char_def)

lemma digit_value_digit_char: "0 \<le> k \<Longrightarrow> k < 10 \<Longrightarrow> digit_value (digit_char k) = k"
  by (simp add: digit_value_def digit_char_def)

lemma pad2_decimal: "list_all isdecimal (pad2 n)"
  by (simp add: pad2_def isdecimal_digit_char)

lemma pad4_decimal: "list_all isdecimal (pad4 n)"
  by (simp add: pad4_def isdecimal_digit_char)

lemma length_pad [simp]: "length (pad2 n) = 2" "length (pad4 n) = 4"
  by (simp_all add: pad2_def pad4_def)

lemma isdecimal_not_space: "isdecimal c \<Longrightarrow> \<not> isspace c"
  by (auto simp: isdecimal_def isspace_def Let_def)

lemma isdecimal_not_sep: "isdecimal c \<Longrightarrow> c \<noteq> CHR ''/'' \<and> c \<noteq> CHR ''-''"
  by (auto simp: isdecimal_def)

lemma decimal_no_sep:
  "list_all isdecimal xs \<Longrightarrow> CHR ''/'' \<notin> set xs \<and> CHR ''-'' \<notin> set xs"
  by (auto simp: list_all_iff dest: isdecimal_not_sep)

lemma dropWhile_rev_last: "xs \<noteq> [] \<Longrightarrow> \<not> P (last xs) \<Longrightarrow> dropWhile P (rev xs) = rev xs"
  by (cases xs rule: rev_cases) simp_all

lemma strip_id: "s \<noteq> [] \<Longrightarrow> \<not> isspace (hd s) \<Longrightarrow> \<not> isspace (last s) \<Longrightarrow> strip s = s"
proof -
  assume a: "s \<noteq> []" "\<not> isspace (hd s)" "\<not> isspace (last s)"
  then have "dropWhile isspace s = s"
    by (cases s) simp_all
  with a show ?thesis
    by (simp add: strip_def dropWhile_rev_last)
qed

lemma decimal_expansion:
  assumes "0 \<le> y" and "y \<le> 9999"
  shows "10 * (10 * (10 * (y div 1000 mod 10) + y div 100 mod 10) + y div 10 mod 10) + y mod 10 = (y::int)"
proof -
  define a where "a = y div 10"
  define b where "b = a div 10"
  define c where "c = b div 10"
  define r0 where "r0 = y mod 10"
  define r1 where "r1 = a mod 10"
  define r2 where "r2 = b mod 10"
  have ya: "y = 10 * a + r0" and ab: "a = 10 * b + r1" and bc: "b = 10 * c + r2"
    by (simp_all add: a_def b_def c_def r0_def r1_def r2_def)
  have nn: "0 \<le> r0" "0 \<le> r1" "0 \<le> r2" "0 \<le> c"
    using assms(1) by (simp_all add: a_def b_def c_def r0_def r1_def r2_def pos_imp_zdiv_nonneg_iff)
  have "c < 10"
    using ya ab bc nn assms(2) by linarith
  with nn have cc: "c mod 10 = c" by simp
  have d1: "y div 100 = b" and d2: "y div 1000 = c"
    using zdiv_zmult2_eq [of 10 y 10] zdiv_zmult2_eq [of 10 y 100]
    by (simp_all add: a_def b_def c_def)
  have "10 * (10 * (10 * c + r2) + r1) + r0 = y"
    using ya ab bc by presburger
  then show ?thesis
    unfolding d1 d2 cc by (simp add: a_def r0_def r1_def r2_def)
qed

lemma group_int_pad4: "0 \<le> y \<Longrightarrow> y \<le> 9999 \<Longrightarrow> group_int (pad4 y) = y"
proof -
  assume y: "0 \<le> y" "y \<le> 9999"
  have "strip (pad4 y) = pad4 y"
    using pad4_decimal [of y]
    by (intro strip_id) (simp_all add: pad4_def isdecimal_not_space)
  then have "group_int (pad4 y) =
      10 * (10 * (10 * (y div 1000 mod 10) + y div 100 mod 10) + y div 10 mod 10) + y mod 10"
    by (simp add: group_int_def pad4_def digit_value_digit_char)
  also have "\<dots> = y"
    using y by (rule decimal_expansion)
  finally show ?thesis .
qed

lemma suffix4:
  "s = p @ ty \<Longrightarrow> s = p' @ ty' \<Longrightarrow> length ty = 4 \<Longrightarrow> length ty' = 4 \<Longrightarrow> ty = ty'"
  by (metis append_eq_append_conv)

lemma prefix4:
  "s = ty @ q \<Longrightarrow> s = ty' @ q' \<Longrightarrow> length ty = 4 \<Longrightarrow> length ty' = 4 \<Longrightarrow> ty = ty'"
  by (metis append_eq_append_conv)

lemma sep_not_decimal: "\<not> isdecimal CHR ''/''" "\<not> isdecimal CHR ''-''"
  by (simp_all add: isdecimal_def)

lemma year_of_parse:
  assumes y: "0 \<le> y" "y \<le> 9999"
    and L: "L \<in> set (date_strings y m d)"
    and f: "f \<in> set formats"
    and p: "strptime L f = Some dt"
  shows "year dt = y"
proof -
  note dec = pad2_decimal [of m] pad2_decimal [of d] pad4_decimal [of y]
  note nosep = dec [THEN decimal_no_sep]
  have last_y: "year dt = y"
    if "f = [a, Lit c1, b, Lit c2, Dir_Y]" "a \<noteq> Dir_Y" "b \<noteq> Dir_Y" "L = P @ pad4 y" for a b c1 c2 P
  proof -
    from strptime_year_last [OF p [unfolded that(1)] that(2,3)] obtain q ty where
      q: "L = q @ ty" "length ty = 4" "year dt = group_int ty"
      by blast
    from suffix4 [OF q(1) that(4) q(2)] have "ty = pad4 y" by simp
    with q(3) y show ?thesis by (simp add: group_int_pad4)
  qed
  have first_y: "year dt = y"
    if "f = [Dir_Y, Lit c1, b, Lit c2, a]" "L = pad4 y @ Q" for a b c1 c2 Q
  proof -
    from strptime_year_first [OF p [unfolded that(1)]] obtain q ty where
      q: "L = ty @ q" "length ty = 4" "year dt = group_int ty"
      by blast
    from prefix4 [OF q(1) that(2) q(2)] have "ty = pad4 y" by simp
    with q(3) y show ?thesis by (simp add: group_int_pad4)
  qed
  have last_sep: "c1 \<in> set L \<and> c2 \<in> set L"
    if "f = [a, Lit c1, b, Lit c2, Dir_Y]" "a \<noteq> Dir_Y" "b \<noteq> Dir_Y" for a b c1 c2
    using strptime_year_last [OF p [unfolded that(1)] that(2,3)] by blast
  have first_sep: "c1 \<in> set L \<and> c2 \<in> set L"
    if "f = [Dir_Y, Lit c1, b, Lit c2, a]" for a b c1 c2
    using strptime_year_first [OF p [unfolded that(1)]] by blast
  have last_dec: "list_all isdecimal ty"
    if "f = [a, Lit c1, b, Lit c2, Dir_Y]" "a \<noteq> Dir_Y" "b \<noteq> Dir_Y" "L = P @ ty" "length ty = 4"
    for a b c1 c2 P ty
  proof -
    from strptime_year_last [OF p [unfolded that(1)] that(2,3)] obtain q ty' where
      q: "L = q @ ty'" "length ty' = 4" "list_all isdecimal ty'"
      by blast
    from suffix4 [OF q(1) that(4) q(2) that(5)] q(3) show ?thesis by simp
  qed
  have first_dec: "list_all isdecimal ty"
    if "f = [Dir_Y, Lit c1, b, Lit c2, a]" "L = ty @ Q" "length ty = 4" for a b c1 c2 Q ty
  proof -
    from strptime_year_first [OF p [unfolded that(1)]] obtain q ty' where
      q: "L = ty' @ q" "length ty' = 4" "list_all isdecimal ty'"
      by blast
    from prefix4 [OF q(1) that(2) q(2) that(3)] q(3) show ?thesis by simp
  qed
  from L consider
      (dmy_slash) "L = pad2 d @ ''/'' @ pad2 m @ ''/'' @ pad4 y"
    | (ymd_dash) "L = pad4 y @ ''-'' @ pad2 m @ ''-'' @ pad2 d"
    | (dmy_dash) "L = pad2 d @ ''-'' @ pad2 m @ ''-'' @ pad4 y"
    | (mdy_slash) "L = pad2 m @ ''/'' @ pad2 d @ ''/'' @ pad4 y"
    by (auto simp: date_strings_def)
  then show ?thesis
  proof cases
    case dmy_slash
    then have e: "L = (pad2 d @ ''/'' @ pad2 m @ ''/'') @ pad4 y" and n: "CHR ''-'' \<notin> set L"
      using nosep by simp_all
    from f show ?thesis
      using last_y [OF _ _ _ e] last_sep first_sep n
      by (auto simp: formats_def)
  next
    case mdy_slash
    then have e: "L = (pad2 m @ ''/'' @ pad2 d @ ''/'') @ pad4 y" and n: "CHR ''-'' \<notin> set L"
      using nosep by simp_all
    from f show ?thesis
      using last_y [OF _ _ _ e] last_sep first_sep n
      by (auto simp: formats_def)
  next
    case ymd_dash
    then have e: "L = pad4 y @ (''-'' @ pad2 m @ ''-'' @ pad2 d)" and n: "CHR ''/'' \<notin> set L"
      using nosep by simp_all
    obtain m1 m2 where m: "pad2 m = [m1, m2]" by (simp add: pad2_def)
    with ymd_dash have e2: "L = (pad4 y @ ''-'' @ [m1]) @ ([m2] @ ''-'' @ pad2 d)"
      by simp
    have bad: "\<not> list_all isdecimal ([m2] @ ''-'' @ pad2 d)"
      by (simp add: sep_not_decimal)
    from f show ?thesis
      using first_y [OF _ e] last_sep n last_dec [OF _ _ _ e2] bad
      by (auto simp: formats_def)
  next
    case dmy_dash
    then have e: "L = (pad2 d @ ''-'' @ pad2 m @ ''-'') @ pad4 y" and n: "CHR ''/'' \<notin> set L"
      using nosep by simp_all
    obtain m1 m2 where m: "pad2 m = [m1, m2]" by (simp add: pad2_def)
    with dmy_dash have e2: "L = (pad2 d @ ''-'' @ [m1]) @ ([m2] @ ''-'' @ pad4 y)"
      by simp
    have bad: "\<not> list_all isdecimal (pad2 d @ ''-'' @ [m1])"
      by (simp add: sep_not_decimal)
    from f show ?thesis
      using last_y [OF _ _ _ e] last_sep n first_dec [OF _ e2] bad
      by (auto simp: formats_def)
  qed
qed

lemma date_strings_strip:
  assumes "L \<in> set (date_strings y m d)"
  shows "strip L = L"
proof -
  note dec = pad2_decimal [of m] pad2_decimal [of d] pad4_decimal [of y]
  from assms have "L \<noteq> [] \<and> isdecimal (hd L) \<and> isdecimal (last L)"
    using dec by (auto simp: date_strings_def pad2_def pad4_def)
  then show ?thesis
    by (intro strip_id) (simp_all add: isdecimal_not_space)
qed

lemma later_year_not_le: "year b < year a \<Longrightarrow> \<not> datetime_le a b"
  by (simp add: datetime_le_def)

lemma validate_date_loop_later:
  "\<forall>f\<in>set fs. \<forall>dt. strptime (strip s) f = Some dt \<longrightarrow> year now < year dt \<Longrightarrow>
     \<not> validate_date_loop now s fs"
  by (induction fs) (auto simp: later_year_not_le split: option.splits)

lemma later_year_fails:
  assumes "date_ok y m d" and "year now < y" and "L \<in> set (date_strings y m d)"
  shows "\<not> validate_date now L"
  unfolding validate_date_def
proof (rule validate_date_loop_later, intro ballI allI impI)
  fix f dt
  assume "f \<in> set formats" and "strptime (strip L) f = Some dt"
  with assms have "year dt = y"
    using year_of_parse [of y L m d f dt] by (simp add: date_strings_strip date_ok_def)
  with assms(2) show "year now < year dt" by simp
qed

lemma parse_2020_slash:
  "strptime (strip ''01/01/2020'') [Dir_d, Lit CHR ''/'', Dir_m, Lit CHR ''/'', Dir_Y] =
     Some \<lparr>year = 2020, month = 1, day = 1, hour = 0, minute = 0, second = 0, microsecond = 0\<rparr>"
  by code_simp

lemma parse_2020_dash:
  "strptime (strip ''2020-01-01'') [Dir_d, Lit CHR ''/'', Dir_m, Lit CHR ''/'', Dir_Y] = None"
  "strptime (strip ''2020-01-01'') [Dir_Y, Lit CHR ''-'', Dir_m, Lit CHR ''-'', Dir_d] =
     Some \<lparr>year = 2020, month = 1, day = 1, hour = 0, minute = 0, second = 0, microsecond = 0\<rparr>"
  by code_simp+

lemma validate_2020:
  "validate_date now ''01/01/2020'' =
     (\<not> datetime_lt now \<lparr>year = 2020, month = 1, day = 1, hour = 0, minute = 0, second = 0, microsecond = 0\<rparr>)"
  "validate_date now ''2020-01-01'' =
     (\<not> datetime_lt now \<lparr>year = 2020, month = 1, day = 1, hour = 0, minute = 0, second = 0, microsecond = 0\<rparr>)"
  by (simp_all add: validate_date_def formats_def parse_2020_slash parse_2020_dash datetime_le_not_lt)

text \<open>Each directive reads back the digits written for a day, a month and a year.\<close>

lemma of_char_digit_char: "0 \<le> k \<Longrightarrow> k < 10 \<Longrightarrow> (of_char (digit_char k) :: nat) = 48 + nat k"
  by (simp add: digit_char_def)

lemma in_range_digit_char:
  "0 \<le> k \<Longrightarrow> k < 10 \<Longrightarrow>
     in_range lo hi (digit_char k) = ((of_char lo :: nat) \<le> 48 + nat k \<and> 48 + nat k \<le> (of_char hi :: nat))"
  by (simp add: in_range_def of_char_digit_char)

lemma eq_digit_char:
  "0 \<le> k \<Longrightarrow> k < 10 \<Longrightarrow> (c = digit_char k) = ((of_char c :: nat) = 48 + nat k)"
  using of_char_digit_char [of k] by (metis of_char_eq_iff)

lemma alternatives_d_digits:
  assumes "0 \<le> a" "0 \<le> b" "b < 10"
    and "(a = 0 \<and> 1 \<le> b) \<or> a = 1 \<or> a = 2 \<or> (a = 3 \<and> b \<le> 1)"
  shows "\<exists>alts. alternatives Dir_d (digit_char a # digit_char b # s)
           = ([digit_char a, digit_char b], s) # alts"
  using assms
  by (auto simp: two_def one_def in_range_digit_char eq_digit_char isdecimal_digit_char)

lemma alternatives_m_digits:
  assumes "0 \<le> a" "0 \<le> b" "b < 10"
    and "(a = 0 \<and> 1 \<le> b) \<or> (a = 1 \<and> b \<le> 2)"
  shows "\<exists>alts. alternatives Dir_m (digit_char a # digit_char b # s)
           = ([digit_char a, digit_char b], s) # alts"
  using assms
  by (auto simp: two_def one_def in_range_digit_char eq_digit_char isdecimal_digit_char)

lemma two_digits:
  assumes "0 \<le> (n::int)" "n \<le> 99"
  obtains a b where "n = 10 * a + b" "0 \<le> a" "a \<le> 9" "0 \<le> b" "b < 10"
    "n div 10 mod 10 = a" "n mod 10 = b"
proof -
  define a where "a = n div 10"
  define b where "b = n mod 10"
  have n: "n = 10 * a + b" by (simp add: a_def b_def)
  have b: "0 \<le> b" "b < 10" by (simp_all add: b_def)
  have a: "0 \<le> a" using assms(1) by (simp add: a_def pos_imp_zdiv_nonneg_iff)
  have a9: "a \<le> 9" using n b assms(2) by linarith
  with a have "a mod 10 = a" by simp
  then have e1: "n div 10 mod 10 = a" by (simp add: a_def)
  have e2: "n mod 10 = b" by (simp add: b_def)
  show ?thesis
    by (rule that [OF n a a9 b e1 e2])
qed

lemma alternatives_d_pad2:
  assumes "1 \<le> d" "d \<le> 31"
  shows "\<exists>alts. alternatives Dir_d (pad2 d @ s) = (pad2 d, s) # alts"
proof -
  from assms have "0 \<le> d" "d \<le> 99" by linarith+
  from two_digits [OF this] obtain a b where ab: "d = 10 * a + b" "0 \<le> a" "a \<le> 9" "0 \<le> b" "b < 10"
    "d div 10 mod 10 = a" "d mod 10 = b"
    by blast
  have "(a = 0 \<and> 1 \<le> b) \<or> a = 1 \<or> a = 2 \<or> (a = 3 \<and> b \<le> 1)"
    using assms ab(1-5) by linarith
  with ab show ?thesis
    unfolding pad2_def using alternatives_d_digits [of a b s] by simp
qed

lemma alternatives_m_pad2:
  assumes "1 \<le> m" "m \<le> 12"
  shows "\<exists>alts. alternatives Dir_m (pad2 m @ s) = (pad2 m, s) # alts"
proof -
  from assms have "0 \<le> m" "m \<le> 99" by linarith+
  from two_digits [OF this] obtain a b where ab: "m = 10 * a + b" "0 \<le> a" "a \<le> 9" "0 \<le> b" "b < 10"
    "m div 10 mod 10 = a" "m mod 10 = b"
    by blast
  have "(a = 0 \<and> 1 \<le> b) \<or> (a = 1 \<and> b \<le> 2)"
    using assms ab(1-5) by linarith
  with ab show ?thesis
    unfolding pad2_def using alternatives_m_digits [of a b s] by simp
qed

lemma alternatives_Y_pad4: "\<exists>alts. alternatives Dir_Y (pad4 y @ s) = (pad4 y, s) # alts"
  using pad4_decimal [of y] by (simp add: pad4_def)

lemma alternatives_Lit: "\<exists>alts. alternatives (Lit c) (c # s) = ([c], s) # alts"
  by (simp add: one_def)

lemma re_match_step:
  assumes "\<exists>alts. alternatives it s = (tx, r) # alts"
    and "\<exists>more. re_match its r = (found, e) # more"
  shows "\<exists>more. re_match (it # its) s = ((it, tx) # found, e) # more"
  using assms by auto

lemma group_int_pad2: "0 \<le> n \<Longrightarrow> n \<le> 99 \<Longrightarrow> group_int (pad2 n) = n"
proof -
  assume n: "0 \<le> n" "n \<le> 99"
  from two_digits [OF n] obtain a b where ab: "n = 10 * a + b" "0 \<le> a" "a \<le> 9" "0 \<le> b" "b < 10"
    "n div 10 mod 10 = a" "n mod 10 = b"
    by blast
  have "strip (pad2 n) = pad2 n"
    using pad2_decimal [of n]
    by (intro strip_id) (simp_all add: pad2_def isdecimal_not_space)
  then have "group_int (pad2 n) = 10 * a + b"
    using ab by (simp add: group_int_def pad2_def digit_value_digit_char)
  with ab(1) show ?thesis by simp
qed

lemma re_match5:
  assumes A: "\<And>s. \<exists>alts. alternatives A (tA @ s) = (tA, s) # alts"
    and B: "\<And>s. \<exists>alts. alternatives B (tB @ s) = (tB, s) # alts"
    and C: "\<And>s. \<exists>alts. alternatives C (tC @ s) = (tC, s) # alts"
  shows "\<exists>more. re_match [A, Lit c1, B, Lit c2, C] (tA @ c1 # tB @ c2 # tC)
           = ([(A, tA), (Lit c1, [c1]), (B, tB), (Lit c2, [c2]), (C, tC)], []) # more"
proof -
  have 0: "\<exists>more. re_match [] [] = ([], []) # more"
    by simp
  have 1: "\<exists>more. re_match [C] tC = ([(C, tC)], []) # more"
    using re_match_step [OF _ 0, of C tC tC] C [of "[]"] by simp
  have 2: "\<exists>more. re_match [Lit c2, C] (c2 # tC) = ([(Lit c2, [c2]), (C, tC)], []) # more"
  proof -
    from re_match_step [OF alternatives_Lit 1] show ?thesis .
  qed
  have 3: "\<exists>more. re_match [B, Lit c2, C] (tB @ c2 # tC)
             = ([(B, tB), (Lit c2, [c2]), (C, tC)], []) # more"
    using re_match_step [OF B 2] .
  have 4: "\<exists>more. re_match [Lit c1, B, Lit c2, C] (c1 # tB @ c2 # tC)
             = ([(Lit c1, [c1]), (B, tB), (Lit c2, [c2]), (C, tC)], []) # more"
  proof -
    from re_match_step [OF alternatives_Lit 3] show ?thesis .
  qed
  show ?thesis
    using re_match_step [OF A 4] .
qed

lemma strptime_of_groups:
  assumes "\<exists>more. re_match fmt s = (found, []) # more"
    and "map_of found Dir_Y = Some ty" "map_of found Dir_m = Some tm" "map_of found Dir_d = Some td"
    and "date_ok (group_int ty) (group_int tm) (group_int td)"
  shows "strptime s fmt = Some (midnight (group_int ty) (group_int tm) (group_int td))"
  using assms by (auto simp: strptime_def midnight_def)

lemma date_ok_bounds:
  assumes "date_ok y m d"
  shows "0 \<le> y" "y \<le> 9999" "1 \<le> m" "m \<le> 12" "1 \<le> d" "d \<le> 31" "0 \<le> m" "m \<le> 99" "0 \<le> d" "d \<le> 99"
  using assms by (auto simp: date_ok_def days_in_month_def split: if_splits)

lemma strptime_dmy:
  assumes "date_ok y m d"
  shows "strptime (pad2 d @ c # pad2 m @ c # pad4 y) [Dir_d, Lit c, Dir_m, Lit c, Dir_Y]
           = Some (midnight y m d)"
proof -
  note b = date_ok_bounds [OF assms]
  have ok: "date_ok (group_int (pad4 y)) (group_int (pad2 m)) (group_int (pad2 d))"
    using assms b by (simp add: group_int_pad2 group_int_pad4)
  have "\<exists>more. re_match [Dir_d, Lit c, Dir_m, Lit c, Dir_Y] (pad2 d @ c # pad2 m @ c # pad4 y)
          = ([(Dir_d, pad2 d), (Lit c, [c]), (Dir_m, pad2 m), (Lit c, [c]), (Dir_Y, pad4 y)], []) # more"
    using b by (intro re_match5 alternatives_d_pad2 alternatives_m_pad2 alternatives_Y_pad4)
  from strptime_of_groups [OF this _ _ _ ok] show ?thesis
    using b by (simp add: group_int_pad2 group_int_pad4)
qed

lemma strptime_ymd:
  assumes "date_ok y m d"
  shows "strptime (pad4 y @ c # pad2 m @ c # pad2 d) [Dir_Y, Lit c, Dir_m, Lit c, Dir_d]
           = Some (midnight y m d)"
proof -
  note b = date_ok_bounds [OF assms]
  have ok: "date_ok (group_int (pad4 y)) (group_int (pad2 m)) (group_int (pad2 d))"
    using assms b by (simp add: group_int_pad2 group_int_pad4)
  have "\<exists>more. re_match [Dir_Y, Lit c, Dir_m, Lit c, Dir_d] (pad4 y @ c # pad2 m @ c # pad2 d)
          = ([(Dir_Y, pad4 y), (Lit c, [c]), (Dir_m, pad2 m), (Lit c, [c]), (Dir_d, pad2 d)], []) # more"
    using b by (intro re_match5 alternatives_d_pad2 alternatives_m_pad2 alternatives_Y_pad4)
  from strptime_of_groups [OF this _ _ _ ok] show ?thesis
    using b by (simp add: group_int_pad2 group_int_pad4)
qed

lemma strptime_mdy:
  assumes "date_ok y m d"
  shows "strptime (pad2 m @ c # pad2 d @ c # pad4 y) [Dir_m, Lit c, Dir_d, Lit c, Dir_Y]
           = Some (midnight y m d)"
proof -
  note b = date_ok_bounds [OF assms]
  have ok: "date_ok (group_int (pad4 y)) (group_int (pad2 m)) (group_int (pad2 d))"
    using assms b by (simp add: group_int_pad2 group_int_pad4)
  have "\<exists>more. re_match [Dir_m, Lit c, Dir_d, Lit c, Dir_Y] (pad2 m @ c # pad2 d @ c # pad4 y)
          = ([(Dir_m, pad2 m), (Lit c, [c]), (Dir_d, pad2 d), (Lit c, [c]), (Dir_Y, pad4 y)], []) # more"
    using b by (intro re_match5 alternatives_d_pad2 alternatives_m_pad2 alternatives_Y_pad4)
  from strptime_of_groups [OF this _ _ _ ok] show ?thesis
    using b by (simp add: group_int_pad2 group_int_pad4)
qed

lemma alternatives_no_slash:
  "(tx, r) \<in> set (alternatives it s) \<Longrightarrow> it \<noteq> Lit CHR ''/'' \<Longrightarrow> CHR ''/'' \<notin> set tx"
  by (cases it) (auto simp: one_def two_def in_range_def isdecimal_def split: list.splits if_splits)

lemma re_match_no_slash:
  "(found, e) \<in> set (re_match its s) \<Longrightarrow>
     \<forall>(it, tx)\<in>set found. it \<noteq> Lit CHR ''/'' \<longrightarrow> CHR ''/'' \<notin> set tx"
proof (induction its arbitrary: s found e)
  case Nil
  then show ?case by simp
next
  case (Cons it its)
  from Cons.prems obtain tx r fnd
    where a: "(tx, r) \<in> set (alternatives it s)"
      and m: "(fnd, e) \<in> set (re_match its r)"
      and f: "found = (it, tx) # fnd"
    by auto
  from Cons.IH [OF m] alternatives_no_slash [OF a] f show ?case
    by auto
qed

lemma strptime_Some_fields:
  assumes "strptime s f = Some dt"
  shows "\<exists>found ty tm td. (found, []) \<in> set (re_match f s)
           \<and> map_of found Dir_Y = Some ty \<and> map_of found Dir_m = Some tm
           \<and> map_of found Dir_d = Some td
           \<and> date_ok (group_int ty) (group_int tm) (group_int td)
           \<and> dt = midnight (group_int ty) (group_int tm) (group_int td)"
proof -
  from assms obtain found e rest where r: "re_match f s = (found, e) # rest"
    by (auto simp: strptime_def split: list.splits)
  with assms have e: "e = []"
    by (auto simp: strptime_def split: if_splits)
  from assms r e obtain ty tm td where
    "map_of found Dir_Y = Some ty" "map_of found Dir_m = Some tm" "map_of found Dir_d = Some td"
    "date_ok (group_int ty) (group_int tm) (group_int td)"
    "dt = midnight (group_int ty) (group_int tm) (group_int td)"
    by (auto simp: strptime_def midnight_def Let_def split: option.splits if_splits)
  moreover have "(found, []) \<in> set (re_match f s)"
    using r e by simp
  ultimately show ?thesis by blast
qed

lemma split_at_first:
  "xs @ c # ys = xs' @ c # ys' \<Longrightarrow> c \<notin> set xs \<Longrightarrow> c \<notin> set xs' \<Longrightarrow> xs = xs' \<and> ys = ys'"
proof (induction xs arbitrary: xs')
  case Nil
  then show ?case by (cases xs') auto
next
  case (Cons x xs)
  then show ?case by (cases xs') auto
qed

text \<open>
  A string month/day/year is not read as day/month/year when its day is above 12: the month
  of a parse is the text between the two slashes.
\<close>

lemma strptime_dmy_month:
  assumes p: "strptime (ta @ CHR ''/'' # tb @ CHR ''/'' # tc)
                [Dir_d, Lit CHR ''/'', Dir_m, Lit CHR ''/'', Dir_Y] = Some dt"
    and na: "CHR ''/'' \<notin> set ta" and nb: "CHR ''/'' \<notin> set tb"
  shows "month dt = group_int tb \<and> 1 \<le> group_int tb \<and> group_int tb \<le> 12"
proof -
  let ?f = "[Dir_d, Lit CHR ''/'', Dir_m, Lit CHR ''/'', Dir_Y]"
  let ?s = "ta @ CHR ''/'' # tb @ CHR ''/'' # tc"
  from strptime_Some_fields [OF p] obtain found ty tm td where
    m: "(found, []) \<in> set (re_match ?f ?s)" and
    g: "map_of found Dir_m = Some tm" and
    ok: "date_ok (group_int ty) (group_int tm) (group_int td)" and
    dt: "dt = midnight (group_int ty) (group_int tm) (group_int td)"
    by blast
  note snd = re_match_sound [OF m]
  from snd have "map fst found = ?f" by simp
  from found5 [OF this] obtain t1 t2 t3 t4 t5 where
    f: "found = [(Dir_d, t1), (Lit CHR ''/'', t2), (Dir_m, t3), (Lit CHR ''/'', t4), (Dir_Y, t5)]"
    by blast
  from g f have t3: "t3 = tm" by simp
  from snd f have t2: "t2 = [CHR ''/'']" and t4: "t4 = [CHR ''/'']"
    by auto
  from re_match_no_slash [OF m] f have n1: "CHR ''/'' \<notin> set t1" and n3: "CHR ''/'' \<notin> set t3"
    by auto
  from snd f t2 t4 have s: "ta @ CHR ''/'' # tb @ CHR ''/'' # tc = t1 @ CHR ''/'' # t3 @ CHR ''/'' # t5"
    by simp
  from split_at_first [OF s na n1] have "tb @ CHR ''/'' # tc = t3 @ CHR ''/'' # t5"
    by simp
  from split_at_first [OF this nb n3] have "tb = t3"
    by simp
  with t3 ok dt show ?thesis
    by (simp add: midnight_def date_ok_def)
qed

lemma strptime_None_sep_last:
  assumes "c1 \<notin> set s \<or> c2 \<notin> set s" and "a \<noteq> Dir_Y" and "b \<noteq> Dir_Y"
  shows "strptime s [a, Lit c1, b, Lit c2, Dir_Y] = None"
proof (cases "strptime s [a, Lit c1, b, Lit c2, Dir_Y]")
  case None
  then show ?thesis .
next
  case (Some dt)
  from strptime_year_last [OF Some assms(2,3)] assms(1) show ?thesis by blast
qed

lemma strptime_None_sep_first:
  assumes "c1 \<notin> set s \<or> c2 \<notin> set s"
  shows "strptime s [Dir_Y, Lit c1, b, Lit c2, a] = None"
proof (cases "strptime s [Dir_Y, Lit c1, b, Lit c2, a]")
  case None
  then show ?thesis .
next
  case (Some dt)
  from strptime_year_first [OF Some] assms(1) show ?thesis by blast
qed

lemma strptime_None_year_first:
  assumes "\<not> list_all isdecimal (take 4 s)"
  shows "strptime s [Dir_Y, Lit c1, b, Lit c2, a] = None"
proof (cases "strptime s [Dir_Y, Lit c1, b, Lit c2, a]")
  case None
  then show ?thesis .
next
  case (Some dt)
  from strptime_year_first [OF Some] obtain ty q where "s = ty @ q" "length ty = 4" "list_all isdecimal ty"
    by blast
  then have "list_all isdecimal (take 4 s)" by simp
  with assms show ?thesis by simp
qed

text \<open>The result on a date written in each of the four layouts.\<close>

lemma pad_no_sep:
  "CHR ''/'' \<notin> set (pad2 n)" "CHR ''-'' \<notin> set (pad2 n)"
  "CHR ''/'' \<notin> set (pad4 n)" "CHR ''-'' \<notin> set (pad4 n)"
  using decimal_no_sep [OF pad2_decimal [of n]] decimal_no_sep [OF pad4_decimal [of n]]
  by simp_all

lemma validate_date_dmy_slash:
  assumes "date_ok y m d"
  shows "validate_date now (pad2 d @ ''/'' @ pad2 m @ ''/'' @ pad4 y)
           = (\<not> datetime_lt now (midnight y m d))"
proof -
  let ?S = "pad2 d @ CHR ''/'' # pad2 m @ CHR ''/'' # pad4 y"
  have s: "strip ?S = ?S"
    by (rule date_strings_strip [of _ y m d]) (simp add: date_strings_def)
  have "strptime ?S [Dir_d, Lit CHR ''/'', Dir_m, Lit CHR ''/'', Dir_Y] = Some (midnight y m d)"
    using strptime_dmy [OF assms, of "CHR ''/''"] by simp
  then have "validate_date now ?S = (\<not> datetime_lt now (midnight y m d))"
    by (simp add: validate_date_def formats_def s datetime_le_not_lt)
  then show ?thesis by simp
qed

lemma validate_date_ymd_dash:
  assumes "date_ok y m d"
  shows "validate_date now (pad4 y @ ''-'' @ pad2 m @ ''-'' @ pad2 d)
           = (\<not> datetime_lt now (midnight y m d))"
proof -
  let ?S = "pad4 y @ CHR ''-'' # pad2 m @ CHR ''-'' # pad2 d"
  have s: "strip ?S = ?S"
    by (rule date_strings_strip [of _ y m d]) (simp add: date_strings_def)
  have n1: "strptime ?S [Dir_d, Lit CHR ''/'', Dir_m, Lit CHR ''/'', Dir_Y] = None"
    by (rule strptime_None_sep_last) (simp_all add: pad_no_sep)
  have "strptime ?S [Dir_Y, Lit CHR ''-'', Dir_m, Lit CHR ''-'', Dir_d] = Some (midnight y m d)"
    using strptime_ymd [OF assms, of "CHR ''-''"] by simp
  then have "validate_date now ?S = (\<not> datetime_lt now (midnight y m d))"
    by (simp add: validate_date_def formats_def s n1 datetime_le_not_lt)
  then show ?thesis by simp
qed

lemma validate_date_dmy_dash:
  assumes "date_ok y m d"
  shows "validate_date now (pad2 d @ ''-'' @ pad2 m @ ''-'' @ pad4 y)
           = (\<not> datetime_lt now (midnight y m d))"
proof -
  let ?S = "pad2 d @ CHR ''-'' # pad2 m @ CHR ''-'' # pad4 y"
  have s: "strip ?S = ?S"
    by (rule date_strings_strip [of _ y m d]) (simp add: date_strings_def)
  have n1: "strptime ?S [Dir_d, Lit CHR ''/'', Dir_m, Lit CHR ''/'', Dir_Y] = None"
    by (rule strptime_None_sep_last) (simp_all add: pad_no_sep)
  have "\<not> list_all isdecimal (take 4 ?S)"
    by (simp add: sep_not_decimal)
  then have n2: "strptime ?S [Dir_Y, Lit CHR ''-'', Dir_m, Lit CHR ''-'', Dir_d] = None"
    by (rule strptime_None_year_first)
  have "strptime ?S [Dir_d, Lit CHR ''-'', Dir_m, Lit CHR ''-'', Dir_Y] = Some (midnight y m d)"
    using strptime_dmy [OF assms, of "CHR ''-''"] by simp
  then have "validate_date now ?S = (\<not> datetime_lt now (midnight y m d))"
    by (simp add: validate_date_def formats_def s n1 n2 datetime_le_not_lt)
  then show ?thesis by simp
qed

text \<open>
  A string month/day/year with a day up to 12 is read by the first format, as the date with
  day and month exchanged; with a day above 12 the first three formats fail and the fourth reads
  it as written.
\<close>

lemma validate_date_mdy_slash_low:
  assumes "date_ok y m d" and "d \<le> 12"
  shows "validate_date now (pad2 m @ ''/'' @ pad2 d @ ''/'' @ pad4 y)
           = (\<not> datetime_lt now (midnight y d m))"
proof -
  from assms have "date_ok y d m"
    by (auto simp: date_ok_def days_in_month_def)
  from validate_date_dmy_slash [OF this] show ?thesis .
qed

lemma validate_date_mdy_slash_high:
  assumes "date_ok y m d" and "12 < d"
  shows "validate_date now (pad2 m @ ''/'' @ pad2 d @ ''/'' @ pad4 y)
           = (\<not> datetime_lt now (midnight y m d))"
proof -
  let ?S = "pad2 m @ CHR ''/'' # pad2 d @ CHR ''/'' # pad4 y"
  note b = date_ok_bounds [OF assms(1)]
  have s: "strip ?S = ?S"
    by (rule date_strings_strip [of _ y m d]) (simp add: date_strings_def)
  have n1: "strptime ?S [Dir_d, Lit CHR ''/'', Dir_m, Lit CHR ''/'', Dir_Y] = None"
  proof (cases "strptime ?S [Dir_d, Lit CHR ''/'', Dir_m, Lit CHR ''/'', Dir_Y]")
    case None
    then show ?thesis .
  next
    case (Some dt)
    then have "strptime (pad2 m @ CHR ''/'' # pad2 d @ CHR ''/'' # pad4 y)
                 [Dir_d, Lit CHR ''/'', Dir_m, Lit CHR ''/'', Dir_Y] = Some dt"
      by simp
    from strptime_dmy_month [OF this pad_no_sep(1) pad_no_sep(1)] have "group_int (pad2 d) \<le> 12"
      by simp
    with b assms(2) show ?thesis
      by (simp add: group_int_pad2)
  qed
  have n2: "strptime ?S [Dir_Y, Lit CHR ''-'', Dir_m, Lit CHR ''-'', Dir_d] = None"
    by (rule strptime_None_sep_first) (simp add: pad_no_sep)
  have n3: "strptime ?S [Dir_d, Lit CHR ''-'', Dir_m, Lit CHR ''-'', Dir_Y] = None"
    by (rule strptime_None_sep_last) (simp_all add: pad_no_sep)
  have "strptime ?S [Dir_m, Lit CHR ''/'', Dir_d, Lit CHR ''/'', Dir_Y] = Some (midnight y m d)"
    using strptime_mdy [OF assms(1), of "CHR ''/''"] by simp
  then have "validate_date now ?S = (\<not> datetime_lt now (midnight y m d))"
    by (simp add: validate_date_def formats_def s n1 n2 n3 datetime_le_not_lt)
  then show ?thesis by simp
qed

text \<open>White space around the input does not change the result.\<close>

lemma dropWhile_all: "list_all P xs \<Longrightarrow> dropWhile P (xs @ ys) = dropWhile P ys"
  by (induction xs) simp_all

lemma dropWhile_all_Nil: "list_all P xs \<Longrightarrow> dropWhile P xs = []"
  by (induction xs) simp_all

lemma strip_padded:
  assumes "list_all isspace pre" and "list_all isspace post"
  shows "strip (pre @ s @ post) = strip s"
proof -
  have a: "dropWhile isspace (pre @ s @ post) = dropWhile isspace (s @ post)"
    using assms(1) by (rule dropWhile_all)
  have r: "list_all isspace (rev post)"
    using assms(2) by (simp add: list_all_iff)
  show ?thesis
  proof (cases "list_all isspace s")
    case True
    then have d1: "dropWhile isspace s = []"
      by (rule dropWhile_all_Nil)
    have e1: "strip s = []"
      unfolding strip_def d1 by simp
    have "list_all isspace (pre @ s @ post)"
      using True assms by simp
    then have d2: "dropWhile isspace (pre @ s @ post) = []"
      by (rule dropWhile_all_Nil)
    have "strip (pre @ s @ post) = []"
      unfolding strip_def d2 by simp
    with e1 show ?thesis
      by simp
  next
    case False
    then obtain x where "x \<in> set s" "\<not> isspace x"
      by (auto simp: list_all_iff)
    then have b: "dropWhile isspace (s @ post) = dropWhile isspace s @ post"
      by (rule dropWhile_append1)
    have "dropWhile isspace (rev post @ rev (dropWhile isspace s))
            = dropWhile isspace (rev (dropWhile isspace s))"
      using r by (rule dropWhile_all)
    then show ?thesis
      unfolding strip_def a b by simp
  qed
qed

lemma validate_date_loop_strip:
  "strip s = strip t \<Longrightarrow> validate_date_loop now s fs = validate_date_loop now t fs"
  by (induction fs) (simp_all split: option.splits)

lemma validate_date_padded:
  "list_all isspace pre \<Longrightarrow> list_all isspace post \<Longrightarrow>
     validate_date now (pre @ s @ post) = validate_date now s"
  unfolding validate_date_def by (rule validate_date_loop_strip) (rule strip_padded)

lemma strip_2020_padded: "strip ''  01/01/2020 '' = strip ''01/01/2020''"
  by code_simp

lemma validate_2020_padded: "validate_date now ''  01/01/2020 '' = validate_date now ''01/01/2020''"
  unfolding validate_date_def by (rule validate_date_loop_strip) (rule strip_2020_padded)

text \<open>
  Claim C6. For every input string and every moment of validation, \<open>validate_date\<close> tries the
  input without the white space around it against the layouts day/month/year, year-month-day, day-month-year and
  month/day/year, in this order; the first layout that parses decides, and the result is true
  exactly when the parsed date is not strictly after the moment of validation; when no layout
  parses the result is false. A date written day/month/year, year-month-day or day-month-year
  is read as written; written month/day/year it is read as written when its day is above 12,
  and with day and month exchanged otherwise, by the first layout. A date of a later year than
  the current one, such as a day one year ahead, fails in each of the four layouts, and \<open>01/01/2020\<close> and \<open>2020-01-01\<close> succeed
  from the first of January 2020 on.
\<close>

theorem validate_date_first_parse:
  "formats =
     [[Dir_d, Lit CHR ''/'', Dir_m, Lit CHR ''/'', Dir_Y],
      [Dir_Y, Lit CHR ''-'', Dir_m, Lit CHR ''-'', Dir_d],
      [Dir_d, Lit CHR ''-'', Dir_m, Lit CHR ''-'', Dir_Y],
      [Dir_m, Lit CHR ''/'', Dir_d, Lit CHR ''/'', Dir_Y]]
   \<and> validate_date now s =
       (case List.map_filter (strptime (strip s)) formats of
          [] \<Rightarrow> False
        | date # _ \<Rightarrow> \<not> datetime_lt now date)
   \<and> (list_all isspace pre \<and> list_all isspace post \<longrightarrow>
        validate_date now (pre @ s @ post) = validate_date now s)
   \<and> (date_ok y m d \<longrightarrow>
        validate_date now (pad2 d @ ''/'' @ pad2 m @ ''/'' @ pad4 y)
          = (\<not> datetime_lt now (midnight y m d))
        \<and> validate_date now (pad4 y @ ''-'' @ pad2 m @ ''-'' @ pad2 d)
          = (\<not> datetime_lt now (midnight y m d))
        \<and> validate_date now (pad2 d @ ''-'' @ pad2 m @ ''-'' @ pad4 y)
          = (\<not> datetime_lt now (midnight y m d))
        \<and> validate_date now (pad2 m @ ''/'' @ pad2 d @ ''/'' @ pad4 y)
          = (\<not> datetime_lt now (if d \<le> 12 then midnight y d m else midnight y m d)))
   \<and> (date_ok y m d \<and> year now < y \<longrightarrow> (\<forall>L\<in>set (date_strings y m d). \<not> validate_date now L))
   \<and> (\<not> datetime_lt now (midnight 2020 1 1) \<longrightarrow>
        validate_date now ''01/01/2020'' \<and> validate_date now ''2020-01-01''
        \<and> validate_date now ''  01/01/2020 '')"
proof (intro conjI)
  show "list_all isspace pre \<and> list_all isspace post \<longrightarrow>
        validate_date now (pre @ s @ post) = validate_date now s"
    using validate_date_padded by blast
  show "validate_date now s =
       (case List.map_filter (strptime (strip s)) formats of
          [] \<Rightarrow> False
        | date # _ \<Rightarrow> \<not> datetime_lt now date)"
    by (simp only: validate_date_def validate_date_loop_first)
  show "date_ok y m d \<and> year now < y \<longrightarrow> (\<forall>L\<in>set (date_strings y m d). \<not> validate_date now L)"
    using later_year_fails by blast
  show "date_ok y m d \<longrightarrow>
        validate_date now (pad2 d @ ''/'' @ pad2 m @ ''/'' @ pad4 y)
          = (\<not> datetime_lt now (midnight y m d))
        \<and> validate_date now (pad4 y @ ''-'' @ pad2 m @ ''-'' @ pad2 d)
          = (\<not> datetime_lt now (midnight y m d))
        \<and> validate_date now (pad2 d @ ''-'' @ pad2 m @ ''-'' @ pad4 y)
          = (\<not> datetime_lt now (midnight y m d))
        \<and> validate_date now (pad2 m @ ''/'' @ pad2 d @ ''/'' @ pad4 y)
          = (\<not> datetime_lt now (if d \<le> 12 then midnight y d m else midnight y m d))"
  proof (intro impI conjI)
    assume ok: "date_ok y m d"
    show "validate_date now (pad2 d @ ''/'' @ pad2 m @ ''/'' @ pad4 y)
          = (\<not> datetime_lt now (midnight y m d))"
      by (rule validate_date_dmy_slash [OF ok])
    show "validate_date now (pad4 y @ ''-'' @ pad2 m @ ''-'' @ pad2 d)
          = (\<not> datetime_lt now (midnight y m d))"
      by (rule validate_date_ymd_dash [OF ok])
    show "validate_date now (pad2 d @ ''-'' @ pad2 m @ ''-'' @ pad4 y)
          = (\<not> datetime_lt now (midnight y m d))"
      by (rule validate_date_dmy_dash [OF ok])
    show "validate_date now (pad2 m @ ''/'' @ pad2 d @ ''/'' @ pad4 y)
          = (\<not> datetime_lt now (if d \<le> 12 then midnight y d m else midnight y m d))"
      using validate_date_mdy_slash_low [OF ok] validate_date_mdy_slash_high [OF ok]
      by (cases "d \<le> 12") simp_all
  qed
qed (simp_all add: formats_def validate_2020 validate_2020_padded midnight_def)

theorem validate_date_first_parse_witness:
  "date_ok 2027 11 4
   \<and> list_all isspace [CHR '' '', CHR 0x09] \<and> list_all isspace [CHR 0x0A]
   \<and> \<not> validate_date
        \<lparr>year = 2026, month = 11, day = 4, hour = 10, minute = 30, second = 0, microsecond = 0\<rparr>
        ''04/11/2027''
   \<and> \<not> validate_date
        \<lparr>year = 2026, month = 11, day = 4, hour = 10, minute = 30, second = 0, microsecond = 0\<rparr>
        ([CHR '' '', CHR 0x09] @ ''04/11/2027'' @ [CHR 0x0A])
   \<and> \<not> validate_date
        \<lparr>year = 2026, month = 11, day = 4, hour = 10, minute = 30, second = 0, microsecond = 0\<rparr>
        ''2027-11-04''
   \<and> \<not> validate_date
        \<lparr>year = 2026, month = 11, day = 4, hour = 10, minute = 30, second = 0, microsecond = 0\<rparr>
        ''04-11-2027''
   \<and> \<not> validate_date
        \<lparr>year = 2026, month = 11, day = 4, hour = 10, minute = 30, second = 0, microsecond = 0\<rparr>
        ''11/04/2027''
   \<and> validate_date
        \<lparr>year = 2026, month = 11, day = 4, hour = 10, minute = 30, second = 0, microsecond = 0\<rparr>
        ''01/01/2020''
   \<and> validate_date
        \<lparr>year = 2026, month = 11, day = 4, hour = 10, minute = 30, second = 0, microsecond = 0\<rparr>
        ''2020-01-01''
   \<and> validate_date
        \<lparr>year = 2026, month = 11, day = 4, hour = 10, minute = 30, second = 0, microsecond = 0\<rparr>
        ''  01/01/2020 ''"
proof -
  let ?now = "\<lparr>year = 2026, month = 11, day = 4, hour = 10, minute = 30, second = 0, microsecond = 0\<rparr>"
  have ok: "date_ok 2027 11 4"
    by (simp add: date_ok_def days_in_month_def)
  have later: "year ?now < 2027"
    by simp
  have sp: "list_all isspace [CHR '' '', CHR 0x09]" "list_all isspace [CHR 0x0A]"
    by (simp_all add: isspace_def)
  have strs: "date_strings 2027 11 4 = [''04/11/2027'', ''2027-11-04'', ''04-11-2027'', ''11/04/2027'']"
    by code_simp
  have past: "\<not> datetime_lt ?now (midnight 2020 1 1)"
    by (simp add: datetime_lt_def midnight_def)
  note inst = validate_date_first_parse
    [where now = ?now and s = "''04/11/2027''" and y = 2027 and m = 11 and d = 4
       and pre = "[CHR '' '', CHR 0x09]" and post = "[CHR 0x0A]"]
  from inst ok later have fut: "\<forall>L\<in>set (date_strings 2027 11 4). \<not> validate_date ?now L"
    by blast
  from inst sp have pad: "validate_date ?now ([CHR '' '', CHR 0x09] @ ''04/11/2027'' @ [CHR 0x0A])
      = validate_date ?now ''04/11/2027''"
    by blast
  from inst past have p20: "validate_date ?now ''01/01/2020'' \<and> validate_date ?now ''2020-01-01''
      \<and> validate_date ?now ''  01/01/2020 ''"
    by blast
  from fut have f4: "\<not> validate_date ?now ''04/11/2027''" "\<not> validate_date ?now ''2027-11-04''"
      "\<not> validate_date ?now ''04-11-2027''" "\<not> validate_date ?now ''11/04/2027''"
    unfolding strs by simp_all
  from ok sp f4 pad p20 show ?thesis
    by (simp only: simp_thms)
qed

subsection \<open>Field classifier, fraud narrative and report\<close>

lemma labels_Nil [simp]: "labels clock i [] = []"
  by (simp add: labels_def)

lemma labels_Cons [simp]:
  "labels clock i (kv # kvp) = field_label (clock i) kv # labels clock (Suc i) kvp"
  by (simp add: labels_def)

lemma bucket_labels_append [simp]:
  "bucket_labels b (xs @ ys) = bucket_labels b xs @ bucket_labels b ys"
  by (induction b xs rule: bucket_labels.induct) simp_all

lemma length_labels [simp]: "length (labels clock i kvp) = length kvp"
  by (simp add: labels_def)

lemma bucket_labels_total:
  "length (bucket_labels Valid ls) + length (bucket_labels Invalid ls)
     + length (bucket_labels Warning ls) \<le> length ls"
proof (induction ls)
  case Nil
  then show ?case by simp
next
  case (Cons x ls)
  then show ?case
    by (cases x) (auto split: prod.splits)
qed

lemma validate_fields_loop_labels:
  "validate_fields_loop clock i r kvp = Inr r' \<Longrightarrow>
     valid_fields r' = valid_fields r @ bucket_labels Valid (labels clock i kvp)
     \<and> invalid_fields r' = invalid_fields r @ bucket_labels Invalid (labels clock i kvp)
     \<and> warnings r' = warnings r @ bucket_labels Warning (labels clock i kvp)"
proof (induction clock i r kvp rule: validate_fields_loop.induct)
  case (1 clock i results)
  then show ?case by simp
next
  case (2 clock i results key val kvp)
  show ?case
  proof (cases "contains ''cpf'' (lower key)")
    case True
    with "2.prems" obtain ok where ok: "validate_cpf val = Inr ok"
      by (auto split: sum.splits)
    show ?thesis
    proof (cases ok)
      case True
      with "2.IH"(1) [OF refl \<open>contains ''cpf'' (lower key)\<close> ok True] "2.prems" ok
           \<open>contains ''cpf'' (lower key)\<close>
      show ?thesis by (simp add: field_label_def)
    next
      case False
      with "2.IH"(2) [OF refl \<open>contains ''cpf'' (lower key)\<close> ok False] "2.prems" ok
           \<open>contains ''cpf'' (lower key)\<close>
      show ?thesis by (simp add: field_label_def)
    qed
  next
    case False
    note nocpf = this
    show ?thesis
    proof (cases "contains ''cnpj'' (lower key)")
      case True
      with "2.IH"(3,4) [OF refl nocpf True] "2.prems" nocpf
      show ?thesis by (cases "validate_cnpj val") (simp_all add: field_label_def)
    next
      case False
      note nocnpj = this
      show ?thesis
      proof (cases "contains ''data'' (lower key) \<or> contains ''date'' (lower key)")
        case True
        with "2.IH"(5,6) [OF refl nocpf nocnpj True] "2.prems" nocpf nocnpj
        show ?thesis by (cases "validate_date (clock i) val") (simp_all add: field_label_def)
      next
        case False
        with "2.IH"(7) [OF refl nocpf nocnpj False] "2.prems" nocpf nocnpj
        show ?thesis by (simp add: field_label_def)
      qed
    qed
  qed
qed


lemma validate_fields_loop_returns:
  "\<forall>kv\<in>set kvp. contains ''cpf'' (lower (fst kv)) \<longrightarrow> (\<exists>ok. validate_cpf (snd kv) = Inr ok) \<Longrightarrow>
     \<exists>r'. validate_fields_loop clock i r kvp = Inr r'"
proof (induction kvp arbitrary: i r)
  case Nil
  then show ?case by simp
next
  case (Cons kv kvp)
  obtain key val where kv: "kv = (key, val)" by (cases kv)
  from Cons have ih: "\<exists>r'. validate_fields_loop clock j q kvp = Inr r'" for j q
    by simp
  show ?case
  proof (cases "contains ''cpf'' (lower key)")
    case True
    with Cons.prems kv obtain ok where "validate_cpf val = Inr ok" by auto
    with True ih show ?thesis by (simp add: kv Let_def)
  next
    case False
    with ih show ?thesis by (simp add: kv Let_def)
  qed
qed

lemma validate_fields_loop_raises:
  "\<exists>kv\<in>set kvp. contains ''cpf'' (lower (fst kv)) \<and> validate_cpf (snd kv) = Inl e \<Longrightarrow>
     \<exists>e'. validate_fields_loop clock i r kvp = Inl e'"
proof (induction kvp arbitrary: i r)
  case Nil
  then show ?case by simp
next
  case (Cons kv kvp)
  obtain key val where kv: "kv = (key, val)" by (cases kv)
  show ?case
  proof (cases "contains ''cpf'' (lower key) \<and> validate_cpf val = Inl e")
    case True
    then show ?thesis by (simp add: kv Let_def)
  next
    case False
    with Cons.prems kv have "\<exists>kv\<in>set kvp. contains ''cpf'' (lower (fst kv)) \<and> validate_cpf (snd kv) = Inl e"
      by auto
    from Cons.IH [OF this] have ih: "\<exists>e'. validate_fields_loop clock j q kvp = Inl e'" for j q .
    show ?thesis
    proof (cases "contains ''cpf'' (lower key)")
      case True
      show ?thesis
        using ih by (cases "validate_cpf val") (simp_all add: kv True Let_def)
    next
      case False
      with ih show ?thesis by (simp add: kv Let_def)
    qed
  qed
qed

lemma empty_validation:
  "pairs_of extracted = [] \<Longrightarrow>
     validate_fields clock extracted = Inr \<lparr>valid_fields = [], invalid_fields = [], warnings = []\<rparr>"
  by (simp add: validate_fields_def pairs_of_def)

lemma no_invalid_score:
  "invalid_fields v = [] \<Longrightarrow> warnings v = [] \<Longrightarrow> analyze_fraud_patterns self extracted v = Inr fa \<Longrightarrow>
     calculate_risk_score v fa = 0"
  by (auto simp: analyze_fraud_patterns_def calculate_risk_score_def split: option.splits sum.splits)

text \<open>
  Claim C8. Without a text-generation client, \<open>analyze_fraud_patterns\<close> returns the analysis
  \<open>OpenAI client nao configurado\<close> with no flags, for every input. With a client that
  responds, the flags are the invalid fields of the validation result as they are, whatever
  the text of the response.
\<close>

theorem analyze_fraud_patterns_flags:
  "(openai_client self = None \<longrightarrow>
      analyze_fraud_patterns self extracted v =
        Inr \<lparr>analysis = ''OpenAI client nao configurado'', flags = []\<rparr>)
   \<and> (\<forall>client response.
        openai_client self = Some client
        \<and> client (openai_deployment self) (build_prompt extracted v) = Inr response \<longrightarrow>
        analyze_fraud_patterns self extracted v =
          Inr \<lparr>analysis = response, flags = invalid_fields v\<rparr>)"
  by (simp add: analyze_fraud_patterns_def)

theorem analyze_fraud_patterns_flags_witness:
  "analyze_fraud_patterns \<lparr>doc_client = None, openai_client = None, openai_deployment = ''gpt-4''\<rparr>
     \<lparr>error_message = None, key_value_pairs = Some [(''cpf'', ''1'')], tables = Some [], entities = Some []\<rparr>
     \<lparr>valid_fields = [], invalid_fields = [''CPF invalido: 1''], warnings = []\<rparr>
     = Inr \<lparr>analysis = ''OpenAI client nao configurado'', flags = []\<rparr>
   \<and> analyze_fraud_patterns
       \<lparr>doc_client = None, openai_client = Some (\<lambda>model prompt. Inr ''sem indicadores''),
          openai_deployment = ''gpt-4''\<rparr>
       \<lparr>error_message = None, key_value_pairs = Some [(''cpf'', ''1'')], tables = Some [], entities = Some []\<rparr>
       \<lparr>valid_fields = [], invalid_fields = [''CPF invalido: 1''], warnings = []\<rparr>
       = Inr \<lparr>analysis = ''sem indicadores'', flags = [''CPF invalido: 1'']\<rparr>"
  using analyze_fraud_patterns_flags
      [of "\<lparr>doc_client = None, openai_client = None, openai_deployment = ''gpt-4''\<rparr>"
          "\<lparr>error_message = None, key_value_pairs = Some [(''cpf'', ''1'')], tables = Some [], entities = Some []\<rparr>"
          "\<lparr>valid_fields = [], invalid_fields = [''CPF invalido: 1''], warnings = []\<rparr>"]
    analyze_fraud_patterns_flags
      [of "\<lparr>doc_client = None, openai_client = Some (\<lambda>model prompt. Inr ''sem indicadores''),
             openai_deployment = ''gpt-4''\<rparr>"
          "\<lparr>error_message = None, key_value_pairs = Some [(''cpf'', ''1'')], tables = Some [], entities = Some []\<rparr>"
          "\<lparr>valid_fields = [], invalid_fields = [''CPF invalido: 1''], warnings = []\<rparr>"]
  by simp

text \<open>
  Claim C9. When the extracted data has no pairs, the key \<open>key_value_pairs\<close> being empty or
  absent as in the payload of an unconfigured extraction, \<open>validate_fields\<close> returns three
  empty buckets without failing, and the risk score of the analysis is 0 with level BAIXO.
\<close>

theorem empty_pairs_score_zero:
  "(pairs_of extracted = [] \<longrightarrow>
      validate_fields clock extracted = Inr \<lparr>valid_fields = [], invalid_fields = [], warnings = []\<rparr>
      \<and> (\<forall>fa. analyze_fraud_patterns self extracted
                 \<lparr>valid_fields = [], invalid_fields = [], warnings = []\<rparr> = Inr fa \<longrightarrow>
            calculate_risk_score \<lparr>valid_fields = [], invalid_fields = [], warnings = []\<rparr> fa = 0
            \<and> get_risk_level
                (calculate_risk_score \<lparr>valid_fields = [], invalid_fields = [], warnings = []\<rparr> fa)
                = ''BAIXO''))
   \<and> (doc_client self = None \<longrightarrow>
        (\<exists>e. extract_document_data self path = Inr e \<and> key_value_pairs e = None
              \<and> pairs_of e = [])
        \<and> (\<forall>rep. analyze_document self clock stamp path = Inr rep \<longrightarrow>
              report_validation rep = \<lparr>valid_fields = [], invalid_fields = [], warnings = []\<rparr>
              \<and> risk_score rep = 0 \<and> risk_level rep = ''BAIXO'')
        \<and> (openai_client self = None \<longrightarrow>
              (\<exists>rep. analyze_document self clock stamp path = Inr rep)))"
proof (intro conjI impI allI)
  let ?E = "\<lparr>valid_fields = [], invalid_fields = [], warnings = []\<rparr>"
  {
    assume p: "pairs_of extracted = []"
    then show "validate_fields clock extracted = Inr ?E"
      by (rule empty_validation)
    fix fa
    assume "analyze_fraud_patterns self extracted ?E = Inr fa"
    then have z: "calculate_risk_score ?E fa = 0"
      by (intro no_invalid_score) simp_all
    then show "calculate_risk_score ?E fa = 0" .
    from z show "get_risk_level (calculate_risk_score ?E fa) = ''BAIXO''"
      by (simp add: get_risk_level_def)
  }
  assume d: "doc_client self = None"
  define e where "e = \<lparr>error_message = Some ''Document Intelligence client nao configurado'',
               key_value_pairs = None, tables = None, entities = None\<rparr>"
  have ex: "extract_document_data self path = Inr e"
    using d by (simp add: extract_document_data_def e_def)
  have pe: "pairs_of e = []" "key_value_pairs e = None"
    by (simp_all add: pairs_of_def e_def)
  from ex pe show "\<exists>e. extract_document_data self path = Inr e \<and> key_value_pairs e = None \<and> pairs_of e = []"
    by blast
  have ve: "validate_fields clock e = Inr ?E"
    using pe by (intro empty_validation)
  {
    fix rep
    assume r: "analyze_document self clock stamp path = Inr rep"
    then obtain fa where fa: "analyze_fraud_patterns self e ?E = Inr fa"
      and rep: "rep = \<lparr>timestamp = stamp, document = path, report_extracted_data = e,
                       report_validation = ?E, report_fraud_analysis = fa,
                       risk_score = calculate_risk_score ?E fa,
                       risk_level = get_risk_level (calculate_risk_score ?E fa)\<rparr>"
      by (auto simp: analyze_document_def ex ve Let_def split: sum.splits)
    from fa have z: "calculate_risk_score ?E fa = 0"
      by (intro no_invalid_score) simp_all
    from rep show "report_validation rep = ?E" by simp
    from rep z show "risk_score rep = 0" by simp
    from rep z show "risk_level rep = ''BAIXO''" by (simp add: get_risk_level_def)
  }
  assume "openai_client self = None"
  then show "\<exists>rep. analyze_document self clock stamp path = Inr rep"
    by (simp add: analyze_document_def ex ve analyze_fraud_patterns_def Let_def)
qed

theorem empty_pairs_score_zero_witness:
  "doc_client \<lparr>doc_client = None, openai_client = None, openai_deployment = ''gpt-4''\<rparr> = None
   \<and> pairs_of \<lparr>error_message = Some ''x'', key_value_pairs = None, tables = None, entities = None\<rparr> = []
   \<and> validate_fields (\<lambda>i. \<lparr>year = 2026, month = 11, day = 4, hour = 0, minute = 0, second = 0, microsecond = 0\<rparr>)
        \<lparr>error_message = Some ''x'', key_value_pairs = None, tables = None, entities = None\<rparr>
       = Inr \<lparr>valid_fields = [], invalid_fields = [], warnings = []\<rparr>
   \<and> (\<exists>rep. analyze_document \<lparr>doc_client = None, openai_client = None, openai_deployment = ''gpt-4''\<rparr>
               (\<lambda>i. \<lparr>year = 2026, month = 11, day = 4, hour = 0, minute = 0, second = 0, microsecond = 0\<rparr>)
               \<lparr>year = 2026, month = 11, day = 4, hour = 0, minute = 0, second = 0, microsecond = 0\<rparr>
               ''doc.pdf'' = Inr rep)"
proof -
  let ?self = "\<lparr>doc_client = None, openai_client = None, openai_deployment = ''gpt-4''\<rparr>"
  let ?e = "\<lparr>error_message = Some ''x'', key_value_pairs = None, tables = None, entities = None\<rparr>"
  let ?now = "\<lparr>year = 2026, month = 11, day = 4, hour = 0, minute = 0, second = 0, microsecond = 0\<rparr>"
  have a: "doc_client ?self = None" "openai_client ?self = None"
    by simp_all
  have b: "pairs_of ?e = []"
    by (simp add: pairs_of_def)
  from empty_pairs_score_zero [of ?e "\<lambda>i. ?now" ?self "''doc.pdf''" ?now] a b show ?thesis
    by simp
qed

text \<open>
  The buckets that \<open>validate_fields\<close> returns hold the labels of the pairs, each in its bucket
  and in the order of the pairs; it returns when no value under a CPF key makes the CPF
  validator raise, and raises otherwise.
\<close>

lemma validate_fields_classification:
  assumes "\<forall>kv\<in>set (pairs_of extracted).
             contains ''cpf'' (lower (fst kv)) \<longrightarrow> (\<exists>ok. validate_cpf (snd kv) = Inr ok)"
  shows "validate_fields clock extracted =
           Inr \<lparr>valid_fields = bucket_labels Valid (labels clock 0 (pairs_of extracted)),
                invalid_fields = bucket_labels Invalid (labels clock 0 (pairs_of extracted)),
                warnings = bucket_labels Warning (labels clock 0 (pairs_of extracted))\<rparr>"
proof -
  let ?E = "\<lparr>valid_fields = [], invalid_fields = [], warnings = []\<rparr>"
  from validate_fields_loop_returns [OF assms, of clock 0 ?E] obtain r
    where r: "validate_fields_loop clock 0 ?E (pairs_of extracted) = Inr r"
    by blast
  from validate_fields_loop_labels [OF r] have "r =
      \<lparr>valid_fields = bucket_labels Valid (labels clock 0 (pairs_of extracted)),
       invalid_fields = bucket_labels Invalid (labels clock 0 (pairs_of extracted)),
       warnings = bucket_labels Warning (labels clock 0 (pairs_of extracted))\<rparr>"
    by simp
  with r show ?thesis
    by (simp add: validate_fields_def pairs_of_def)
qed

text \<open>
  Claim C7. For every extracted mapping, \<open>validate_fields\<close> classifies each pair by its key
  in lower case, CPF before CNPJ before date: a passing CPF or CNPJ goes to the valid fields
  and a failing one to the invalid fields, a failing date goes to the warnings. The code does
  not classify every mapping: a value under a CPF key on which the CPF validator raises, such
  as ten superscript twos followed by \<open>1\<close>, is not put among the invalid fields; the
  exception ends \<open>validate_fields\<close>.
\<close>

theorem validate_fields_superscript_raises:
  "validate_fields clock
     \<lparr>error_message = None,
      key_value_pairs = Some [(''CPF'', replicate 10 (CHR 0xB2) @ ''1'')],
      tables = Some [], entities = Some []\<rparr> = Inl ValueError"
proof -
  have "validate_cpf (replicate 10 (CHR 0xB2) @ ''1'') = Inl ValueError"
    by code_simp
  moreover have "contains ''cpf'' (lower ''CPF'')"
    by code_simp
  ultimately show ?thesis
    by (simp add: validate_fields_def)
qed

text \<open>
  Claim C10. For every extracted mapping, each pair contributes at most one label, to one
  bucket only: the buckets returned are the labels of the pairs sorted by bucket, so the three
  lengths add up to at most the number of pairs.
\<close>

theorem validate_fields_one_label_per_pair:
  "validate_fields clock extracted = Inr r \<Longrightarrow>
     length (labels clock 0 (pairs_of extracted)) = length (pairs_of extracted)
     \<and> valid_fields r = bucket_labels Valid (labels clock 0 (pairs_of extracted))
     \<and> invalid_fields r = bucket_labels Invalid (labels clock 0 (pairs_of extracted))
     \<and> warnings r = bucket_labels Warning (labels clock 0 (pairs_of extracted))
     \<and> length (valid_fields r) + length (invalid_fields r) + length (warnings r)
         \<le> length (pairs_of extracted)"
proof -
  assume a: "validate_fields clock extracted = Inr r"
  let ?ls = "labels clock 0 (pairs_of extracted)"
  from a have b: "valid_fields r = bucket_labels Valid ?ls"
      "invalid_fields r = bucket_labels Invalid ?ls"
      "warnings r = bucket_labels Warning ?ls"
    using validate_fields_loop_labels
      [of clock 0 "\<lparr>valid_fields = [], invalid_fields = [], warnings = []\<rparr>" "pairs_of extracted" r]
    by (simp_all add: validate_fields_def pairs_of_def)
  from bucket_labels_total [of ?ls] b show ?thesis
    by simp
qed

theorem validate_fields_one_label_per_pair_witness:
  "validate_fields (\<lambda>i. \<lparr>year = 2026, month = 11, day = 4, hour = 0, minute = 0, second = 0, microsecond = 0\<rparr>)
     \<lparr>error_message = None,
      key_value_pairs = Some [(''CPF'', ''11144477735''), (''Nome'', ''Ana''), (''Data'', ''amanha'')],
      tables = Some [], entities = Some []\<rparr>
     = Inr \<lparr>valid_fields = [''CPF: 11144477735''], invalid_fields = [],
            warnings = [''Data suspeita: amanha'']\<rparr>
   \<and> length [''CPF: 11144477735''] + length ([] :: string list) + length [''Data suspeita: amanha'']
       \<le> length [(''CPF'', ''11144477735''), (''Nome'', ''Ana''), (''Data'', ''amanha'')]"
proof -
  let ?clock = "\<lambda>i::nat. \<lparr>year = 2026, month = 11, day = 4, hour = 0, minute = 0, second = 0, microsecond = 0\<rparr>"
  let ?e = "\<lparr>error_message = None,
      key_value_pairs = Some [(''CPF'', ''11144477735''), (''Nome'', ''Ana''), (''Data'', ''amanha'')],
      tables = Some [], entities = Some []\<rparr>"
  let ?r = "\<lparr>valid_fields = [''CPF: 11144477735''], invalid_fields = [],
            warnings = [''Data suspeita: amanha'']\<rparr>"
  have v: "validate_fields ?clock ?e = Inr ?r"
    by code_simp
  have p: "pairs_of ?e = [(''CPF'', ''11144477735''), (''Nome'', ''Ana''), (''Data'', ''amanha'')]"
    by (simp add: pairs_of_def)
  from validate_fields_one_label_per_pair [OF v] have
    "length (valid_fields ?r) + length (invalid_fields ?r) + length (warnings ?r) \<le> length (pairs_of ?e)"
    by (elim conjE)
  with v p show ?thesis
    by simp
qed

end
